theory Spec2Isabelle
  imports Main "HOL-Library.Word" "HOL-Library.DAList"
begin

section \<open>Values shared by the packages\<close>

text \<open>
  A Go \<open>[]byte\<close> is a list of bytes or the nil slice; \<open>None\<close> is the nil slice.
  \<open>len\<close> is Go's builtin: it is 0 on the nil slice and on the empty slice alike.
\<close>

type_synonym bytes = "8 word list option"

definition len :: "bytes \<Rightarrow> nat" where
  "len b = (case b of None \<Rightarrow> 0 | Some xs \<Rightarrow> length xs)"

text \<open>
  Go errors as values: \<open>errors.New(msg)\<close> and \<open>fmt.Errorf(prefix + "%w", cause)\<close>.
  An error reported by the SQL driver is some value of this type handed in from outside.
\<close>

datatype error = ErrorsNew string | Errorf string error

section \<open>storage/db.go: the versioned store\<close>

record WriteRecord =
  Namespace :: string
  Key :: string
  BlockNum :: "64 word"
  TxNum :: "64 word"
  Value :: bytes
  IsDelete :: bool
  TxID :: string

text \<open>
  The SQL backend as the queries of this package see it: the world state tables by name
  (rows in insertion order; the columns are the fields of \<open>WriteRecord\<close>) and the table
  \<open>channel_progress\<close>, whose primary key is the channel. Block and transaction numbers are
  the unsigned numbers the Go code binds to the statements, and the comparisons of the
  queries compare these numbers.
\<close>

record sqldb =
  tables :: "string \<Rightarrow> WriteRecord list"
  channel_progress :: "string \<rightharpoonup> 64 word"

record VersionedDB =
  channel :: string
  table :: string
  backend :: sqldb

definition New :: "string \<Rightarrow> sqldb \<Rightarrow> VersionedDB" where
  "New ch db = \<lparr>channel = ch, table = ''worldstate_'' @ ch, backend = db\<rparr>"

text \<open>\<open>PRIMARY KEY (namespace, key, version_block, version_tx)\<close>\<close>

definition primary_key :: "WriteRecord \<Rightarrow> string \<times> string \<times> 64 word \<times> 64 word" where
  "primary_key w =
     (WriteRecord.Namespace w, WriteRecord.Key w, WriteRecord.BlockNum w, WriteRecord.TxNum w)"

text \<open>
  \<open>INSERT INTO t (...) VALUES (...) ON CONFLICT (namespace, key, version_block, version_tx)
  DO NOTHING\<close> (and SQLite's \<open>INSERT OR IGNORE\<close>): a row whose primary key is already in the
  table is dropped, any other row is added.
\<close>

definition insert_ignore :: "WriteRecord \<Rightarrow> WriteRecord list \<Rightarrow> WriteRecord list" where
  "insert_ignore w rs =
     (if list_ex (\<lambda>r. primary_key r = primary_key w) rs then rs else rs @ [w])"

text \<open>
  \<open>INSERT INTO channel_progress(channel, last_block) VALUES (?, ?)
  ON CONFLICT(channel) DO UPDATE SET last_block = excluded.last_block
  WHERE excluded.last_block > channel_progress.last_block\<close>
\<close>

definition upsert_progress :: "string \<Rightarrow> 64 word \<Rightarrow> sqldb \<Rightarrow> sqldb" where
  "upsert_progress ch b db =
     (case channel_progress db ch of
        None \<Rightarrow> db\<lparr>channel_progress := (channel_progress db)(ch \<mapsto> b)\<rparr>
      | Some old \<Rightarrow>
          if old < b then db\<lparr>channel_progress := (channel_progress db)(ch \<mapsto> b)\<rparr> else db)"

text \<open>
  \<open>InsertWrite\<close>: one statement on the backend outside any transaction. \<open>xerr\<close> is what
  the driver's \<open>Exec\<close> reports (\<open>None\<close>: the statement ran).
\<close>

definition InsertWrite :: "error option \<Rightarrow> VersionedDB \<Rightarrow> WriteRecord \<Rightarrow> error option \<times> VersionedDB" where
  "InsertWrite xerr s w =
     (case xerr of
        Some err \<Rightarrow> (Some (Errorf ''insert write: '' err), s)
      | None \<Rightarrow>
          (None, s\<lparr>backend := (backend s)\<lparr>tables :=
             (tables (backend s))(table s := insert_ignore w (tables (backend s) (table s)))\<rparr>\<rparr>))"

text \<open>
  \<open>MarkProcessed(tx, blockNum)\<close>: the statement runs on the backend when \<open>tx\<close> is nil and
  inside the open transaction otherwise. An open transaction is the copy of the backend it
  works on; the result returns both, updated.
\<close>

definition MarkProcessed ::
  "error option \<Rightarrow> VersionedDB \<Rightarrow> sqldb option \<Rightarrow> 64 word \<Rightarrow> error option \<times> VersionedDB \<times> sqldb option" where
  "MarkProcessed xerr s tx blockNum =
     (case xerr of
        Some err \<Rightarrow> (Some (Errorf ''update last block exec: '' err), s, tx)
      | None \<Rightarrow>
          (case tx of
             None \<Rightarrow> (None, s\<lparr>backend := upsert_progress (channel s) blockNum (backend s)\<rparr>, None)
           | Some t \<Rightarrow> (None, s, Some (upsert_progress (channel s) blockNum t))))"

text \<open>
  What the driver reports at each step of one \<open>BatchInsert\<close> call: \<open>Begin\<close>, \<open>Prepare\<close>,
  the \<open>Exec\<close> of the record at each index, the \<open>Exec\<close> inside \<open>MarkProcessed\<close>, and
  \<open>Commit\<close>. \<open>None\<close> means the step succeeds.
\<close>

record sqlenv =
  begin_err :: "error option"
  prepare_err :: "error option"
  exec_err :: "nat \<Rightarrow> error option"
  mark_err :: "error option"
  commit_err :: "error option"

definition healthy :: sqlenv where
  "healthy = \<lparr>begin_err = None, prepare_err = None, exec_err = (\<lambda>_. None),
              mark_err = None, commit_err = None\<rparr>"

text \<open>The loop \<open>for _, w := range writes { stmt.Exec(...) }\<close> on the rows of the table
  inside the transaction; \<open>i\<close> is the index of the next record.\<close>

fun exec_writes ::
  "(nat \<Rightarrow> error option) \<Rightarrow> nat \<Rightarrow> WriteRecord list \<Rightarrow> WriteRecord list \<Rightarrow> error + WriteRecord list" where
  "exec_writes xe i [] rs = Inr rs"
| "exec_writes xe i (w # ws) rs =
     (case xe i of
        Some err \<Rightarrow> Inl (Errorf ''batch insert exec: '' err)
      | None \<Rightarrow> exec_writes xe (Suc i) ws (insert_ignore w rs))"

text \<open>
  \<open>BatchInsert\<close>. \<open>tx.Begin\<close> opens the transaction on a copy of the backend;
  \<open>defer tx.Rollback()\<close> discards that copy on every return before \<open>Commit\<close>; a successful
  \<open>Commit\<close> makes the copy the backend. \<open>MarkProcessed\<close> is called with the
  transaction, so it answers with the transaction; the case of an answer without one is
  there only to make the case distinction complete.
\<close>

definition BatchInsert :: "sqlenv \<Rightarrow> VersionedDB \<Rightarrow> WriteRecord list \<Rightarrow> error option \<times> VersionedDB" where
  "BatchInsert env s writes =
     (case writes of
        [] \<Rightarrow> (None, s)
      | w0 # _ \<Rightarrow>
          (case begin_err env of
             Some err \<Rightarrow> (Some (Errorf ''begin batch insert: '' err), s)
           | None \<Rightarrow>
               let tx = backend s in
               (case prepare_err env of
                  Some err \<Rightarrow> (Some (Errorf ''prepare batch insert: '' err), s)
                | None \<Rightarrow>
                    (case exec_writes (exec_err env) 0 writes (tables tx (table s)) of
                       Inl err \<Rightarrow> (Some err, s)
                     | Inr rs \<Rightarrow>
                         (case MarkProcessed (mark_err env) s
                                 (Some (tx\<lparr>tables := (tables tx)(table s := rs)\<rparr>))
                                 (WriteRecord.BlockNum w0) of
                            (Some err, _, _) \<Rightarrow> (Some err, s)
                          | (None, _, None) \<Rightarrow> (None, s)
                          | (None, _, Some tx') \<Rightarrow>
                              (case commit_err env of
                                 Some err \<Rightarrow> (Some (Errorf ''commit batch insert: '' err), s)
                               | None \<Rightarrow> (None, s\<lparr>backend := tx'\<rparr>)))))))"

text \<open>
  \<open>ORDER BY version_block DESC, version_tx DESC LIMIT 1\<close>: \<open>newer a b\<close> says that row
  \<open>a\<close> sorts before row \<open>b\<close>, and \<open>latest\<close> is the first row of the sorted result.
\<close>

definition newer :: "WriteRecord \<Rightarrow> WriteRecord \<Rightarrow> bool" where
  "newer a b \<longleftrightarrow>
     WriteRecord.BlockNum b < WriteRecord.BlockNum a \<or>
     (WriteRecord.BlockNum a = WriteRecord.BlockNum b \<and> WriteRecord.TxNum b < WriteRecord.TxNum a)"

fun latest :: "WriteRecord list \<Rightarrow> WriteRecord option" where
  "latest [] = None"
| "latest (r # rs) =
     (case latest rs of
        None \<Rightarrow> Some r
      | Some m \<Rightarrow> if newer m r then Some m else Some r)"

text \<open>
  \<open>Get\<close>: \<open>WHERE namespace = $1 AND key = $2 AND version_block <= $3\<close>. \<open>qerr\<close> is what
  \<open>row.Scan\<close> reports other than \<open>sql.ErrNoRows\<close>; no row is \<open>(nil, nil)\<close>.
\<close>

definition Get ::
  "error option \<Rightarrow> VersionedDB \<Rightarrow> string \<Rightarrow> string \<Rightarrow> 64 word \<Rightarrow> WriteRecord option \<times> error option" where
  "Get qerr s namespace key lastBlock =
     (case qerr of
        Some err \<Rightarrow> (None, Some (Errorf ''get current: '' err))
      | None \<Rightarrow>
          (latest (filter (\<lambda>r. WriteRecord.Namespace r = namespace \<and> WriteRecord.Key r = key \<and>
                                WriteRecord.BlockNum r \<le> lastBlock)
                     (tables (backend s) (table s))), None))"

text \<open>
  \<open>LastProcessedBlock\<close>: the channel's \<open>last_block\<close>, 0 when the channel has no row.
  The column is \<open>NOT NULL\<close>, so the scanned \<open>sql.NullInt64\<close> of a row is valid.
\<close>

definition LastProcessedBlock :: "error option \<Rightarrow> VersionedDB \<Rightarrow> 64 word \<times> error option" where
  "LastProcessedBlock qerr s =
     (case qerr of
        Some err \<Rightarrow> (0, Some (Errorf ''query last processed block: '' err))
      | None \<Rightarrow>
          (case channel_progress (backend s) (channel s) of
             None \<Rightarrow> (0, None)
           | Some b \<Rightarrow> (b, None)))"

section \<open>committer/storage.go: the store with two SQL dialects\<close>

text \<open>
  The committer package has its own copy of the store. Its statements are those of
  \<open>storage/db.go\<close> in the dialect chosen by \<open>Backend\<close>; any other backend name is an
  error. Its \<open>WriteRecord\<close> differs only in the Go type of \<open>TxNum\<close> (\<open>int\<close>), which
  these functions bind to the same column and never compute with.
\<close>

record Store =
  channel :: string
  table :: string
  DB :: sqldb
  Backend :: string

definition NewStorage :: "string \<Rightarrow> sqldb \<Rightarrow> string \<Rightarrow> Store" where
  "NewStorage ch db be = \<lparr>channel = ch, table = ''worldstate_'' @ ch, DB = db, Backend = be\<rparr>"

definition supported :: "string \<Rightarrow> bool" where
  "supported be \<longleftrightarrow> be = ''postgres'' \<or> be = ''sqlite''"

definition Store_MarkProcessed ::
  "error option \<Rightarrow> Store \<Rightarrow> sqldb option \<Rightarrow> 64 word \<Rightarrow> error option \<times> Store \<times> sqldb option" where
  "Store_MarkProcessed xerr sp tx blockNum =
     (if \<not> supported (Backend sp)
      then (Some (ErrorsNew (''unsupported backend: '' @ Backend sp)), sp, tx)
      else
        (case xerr of
           Some err \<Rightarrow> (Some (Errorf ''update last block exec: '' err), sp, tx)
         | None \<Rightarrow>
             (case tx of
                None \<Rightarrow> (None, sp\<lparr>DB := upsert_progress (Store.channel sp) blockNum (DB sp)\<rparr>, None)
              | Some t \<Rightarrow> (None, sp, Some (upsert_progress (Store.channel sp) blockNum t)))))"

definition Store_BatchInsert :: "sqlenv \<Rightarrow> Store \<Rightarrow> WriteRecord list \<Rightarrow> error option \<times> Store" where
  "Store_BatchInsert env sp writes =
     (case writes of
        [] \<Rightarrow> (None, sp)
      | w0 # _ \<Rightarrow>
          (case begin_err env of
             Some err \<Rightarrow> (Some (Errorf ''begin batch insert: '' err), sp)
           | None \<Rightarrow>
               let tx = DB sp in
               if \<not> supported (Backend sp)
               then (Some (ErrorsNew (''unsupported backend: '' @ Backend sp)), sp)
               else
               (case prepare_err env of
                  Some err \<Rightarrow> (Some (Errorf ''prepare batch insert: '' err), sp)
                | None \<Rightarrow>
                    (case exec_writes (exec_err env) 0 writes (tables tx (Store.table sp)) of
                       Inl err \<Rightarrow> (Some err, sp)
                     | Inr rs \<Rightarrow>
                         (case Store_MarkProcessed (mark_err env) sp
                                 (Some (tx\<lparr>tables := (tables tx)(Store.table sp := rs)\<rparr>))
                                 (WriteRecord.BlockNum w0) of
                            (Some err, _, _) \<Rightarrow> (Some err, sp)
                          | (None, _, None) \<Rightarrow> (None, sp)
                          | (None, _, Some tx') \<Rightarrow>
                              (case commit_err env of
                                 Some err \<Rightarrow> (Some (Errorf ''commit batch insert: '' err), sp)
                               | None \<Rightarrow> (None, sp\<lparr>DB := tx'\<rparr>)))))))"

definition Store_LastProcessedBlock :: "error option \<Rightarrow> Store \<Rightarrow> 64 word \<times> error option" where
  "Store_LastProcessedBlock qerr sp =
     (case qerr of
        Some err \<Rightarrow> (0, Some (Errorf ''query last processed block: '' err))
      | None \<Rightarrow>
          (case channel_progress (DB sp) (Store.channel sp) of
             None \<Rightarrow> (0, None)
           | Some b \<Rightarrow> (b, None)))"

section \<open>storage/sim.go: the simulation session\<close>

record Version =
  BlockNum :: "64 word"
  TxNum :: "64 word"

record KVRead =
  Key :: string
  Version :: "Version option"

record KVWrite =
  Key :: string
  IsDelete :: bool
  Value :: bytes

text \<open>
  \<open>store\<close> is the \<open>ReadStore\<close> interface, that is its one method \<open>Get\<close>. The Go maps
  \<open>reads\<close> and \<open>writes\<close> are association lists with distinct keys; storing under a
  present key replaces its entry. Go leaves the order in which \<open>range\<close> walks a map
  open; no statement below depends on the order of these lists.
\<close>

record SimulationStore =
  readOwnWrites :: bool
  namespace :: string
  store :: "string \<Rightarrow> string \<Rightarrow> 64 word \<Rightarrow> WriteRecord option \<times> error option"
  blockNum :: "64 word"
  reads :: "(string, KVRead) alist"
  writes :: "(string, KVWrite) alist"

text \<open>
  \<open>NewSimulationStore\<close>. \<open>lerr\<close> is what the query of \<open>LastProcessedBlock\<close> reports and
  \<open>gerr\<close> what the later point lookups of the session report.
\<close>

definition NewSimulationStore ::
  "error option \<Rightarrow> error option \<Rightarrow> VersionedDB \<Rightarrow> string \<Rightarrow> 64 word \<Rightarrow> bool \<Rightarrow> SimulationStore option \<times> error option" where
  "NewSimulationStore lerr gerr s ns bn row =
     (let mk = (\<lambda>version. \<lparr>readOwnWrites = row, namespace = ns, store = Get gerr s,
                            blockNum = version, reads = DAList.empty, writes = DAList.empty\<rparr>)
      in if bn = 0
         then (case LastProcessedBlock lerr s of
                 (_, Some err) \<Rightarrow> (None, Some err)
               | (lastBlock, None) \<Rightarrow> (Some (mk lastBlock), None))
         else (Some (mk bn), None))"

text \<open>
  \<open>GetState\<close>, branch by branch. The variable \<open>val\<close> is declared (the nil slice) and
  returned at the end; no statement of the function assigns to it.
\<close>

definition GetState :: "SimulationStore \<Rightarrow> string \<Rightarrow> (bytes \<times> error option) \<times> SimulationStore" where
  "GetState s key =
     (case (if readOwnWrites s then DAList.lookup (writes s) key else None) of
        Some record \<Rightarrow>
          if KVWrite.IsDelete record then ((None, None), s)
          else ((KVWrite.Value record, None), s)
      | None \<Rightarrow>
          (case store s (namespace s) key (blockNum s) of
             (_, Some err) \<Rightarrow> ((None, Some err), s)
           | (rec, None) \<Rightarrow>
               let val = None;
                   read = \<lparr>KVRead.Key = key, Version = None\<rparr>
               in (case rec of
                     None \<Rightarrow> ((val, None), s\<lparr>reads := DAList.update key read (reads s)\<rparr>)
                   | Some record \<Rightarrow>
                       if WriteRecord.IsDelete record then ((None, None), s)
                       else
                         let read = read\<lparr>Version := Some \<lparr>BlockNum = WriteRecord.BlockNum record,
                                                            TxNum = WriteRecord.TxNum record\<rparr>\<rparr>
                         in ((val, None), s\<lparr>reads := DAList.update key read (reads s)\<rparr>))))"

definition PutState :: "SimulationStore \<Rightarrow> string \<Rightarrow> bytes \<Rightarrow> error option \<times> SimulationStore" where
  "PutState s key value =
     (if length key = 0 then (Some (ErrorsNew ''key is empty''), s)
      else if len value = 0 then (Some (ErrorsNew ''key is empty''), s)
      else (None, s\<lparr>writes :=
              DAList.update key \<lparr>KVWrite.Key = key, IsDelete = False, Value = value\<rparr> (writes s)\<rparr>))"

definition DelState :: "SimulationStore \<Rightarrow> string \<Rightarrow> error option \<times> SimulationStore" where
  "DelState s key =
     (None, s\<lparr>writes :=
        DAList.update key \<lparr>KVWrite.Key = key, IsDelete = True, Value = None\<rparr> (writes s)\<rparr>)"

record ReadWriteSet =
  Reads :: "KVRead list"
  Writes :: "KVWrite list"

definition Result :: "SimulationStore \<Rightarrow> ReadWriteSet" where
  "Result s = \<lparr>Reads = map snd (DAList.impl_of (reads s)),
               Writes = map snd (DAList.impl_of (writes s))\<rparr>"

section \<open>committer/committer.go: waiting for synchronisation\<close>



text \<open>
  A \<open>time.Duration\<close> is a number of nanoseconds. The loop's \<open>backoff\<close> only takes the
  values 1, 2, 4, 8 and 16 seconds, far from the range of \<open>int64\<close>.
\<close>

type_synonym Duration = int





section \<open>Notions used to state the properties\<close>

subsection \<open>Sequences of calls on one key of a session\<close>

datatype wcall = CallPutState bytes | CallDelState

fun call :: "string \<Rightarrow> SimulationStore \<Rightarrow> wcall \<Rightarrow> SimulationStore" where
  "call key s (CallPutState v) = snd (PutState s key v)"
| "call key s CallDelState = snd (DelState s key)"

text \<open>
  The entry a call is meant to leave in the write set, in the words of the specification:
  a put of a non-empty value under a non-empty key leaves \<open>{key, value, isDelete:false}\<close>,
  a delete leaves \<open>{key, isDelete:true}\<close>, and a rejected put leaves nothing.
\<close>

fun stored :: "string \<Rightarrow> wcall \<Rightarrow> KVWrite option" where
  "stored key (CallPutState v) =
     (if key = [] \<or> len v = 0 then None
      else Some \<lparr>KVWrite.Key = key, IsDelete = False, Value = v\<rparr>)"
| "stored key CallDelState = Some \<lparr>KVWrite.Key = key, IsDelete = True, Value = None\<rparr>"

text \<open>
  In a session made by \<open>NewSimulationStore\<close> and used through \<open>PutState\<close> and
  \<open>DelState\<close>, every entry of the writes map carries the key it is stored under.
\<close>

definition keyed :: "SimulationStore \<Rightarrow> bool" where
  "keyed s \<longleftrightarrow> list_all (\<lambda>(k, w). KVWrite.Key w = k) (DAList.impl_of (writes s))"

subsection \<open>Example data\<close>

text \<open>The bytes of the Go string literals \<open>"v1"\<close>, \<open>"v2"\<close>, \<open>"v"\<close> and \<open>"A"\<close>.\<close>

definition bytes_v1 :: bytes where "bytes_v1 = Some [118, 49]"
definition bytes_v2 :: bytes where "bytes_v2 = Some [118, 50]"
definition bytes_v :: bytes where "bytes_v = Some [118]"
definition bytes_A :: bytes where "bytes_A = Some [65]"

text \<open>The stub of \<open>newStub\<close> in \<open>storage/sim_test.go\<close>, over a store without records.\<close>

definition newStub :: SimulationStore where
  "newStub = \<lparr>readOwnWrites = False, namespace = ''ns'', store = (\<lambda>_ _ _. (None, None)),
              blockNum = 1, reads = DAList.empty, writes = DAList.empty\<rparr>"

text \<open>
  A store of channel \<open>mychannel\<close> with two rows in namespace \<open>ns\<close>: key \<open>k1\<close> written
  with value \<open>"v1"\<close> at block 10, transaction 1, and key \<open>k\<close> deleted at block 7.
\<close>

definition rec_k1 :: WriteRecord where
  "rec_k1 = \<lparr>Namespace = ''ns'', WriteRecord.Key = ''k1'', WriteRecord.BlockNum = 10,
             WriteRecord.TxNum = 1, WriteRecord.Value = bytes_v1, WriteRecord.IsDelete = False,
             TxID = ''tx1''\<rparr>"

definition rec_gone :: WriteRecord where
  "rec_gone = \<lparr>Namespace = ''ns'', WriteRecord.Key = ''k'', WriteRecord.BlockNum = 7,
               WriteRecord.TxNum = 0, WriteRecord.Value = None, WriteRecord.IsDelete = True,
               TxID = ''tx0''\<rparr>"

definition ledger :: VersionedDB where
  "ledger = New ''mychannel''
     \<lparr>tables = (\<lambda>_. [])(''worldstate_mychannel'' := [rec_gone, rec_k1]),
      channel_progress = [''mychannel'' \<mapsto> 10]\<rparr>"

text \<open>
  The session \<open>NewSimulationStore\<close> returns on this store for namespace \<open>ns\<close> at snapshot
  version 100 (lemma \<open>session_New\<close>), and that session with read-your-own-writes after
  \<open>PutState("k", "A")\<close>.
\<close>

definition session :: "bool \<Rightarrow> SimulationStore" where
  "session row = \<lparr>readOwnWrites = row, namespace = ''ns'', store = Get None ledger,
                  blockNum = 100, reads = DAList.empty, writes = DAList.empty\<rparr>"

definition session_put :: SimulationStore where
  "session_put = snd (PutState (session True) ''k'' bytes_A)"

subsection \<open>The version history and the progress of a store\<close>

definition history :: "VersionedDB \<Rightarrow> WriteRecord list" where
  "history s = tables (backend s) (VersionedDB.table s)"

definition progress :: "VersionedDB \<Rightarrow> 64 word option" where
  "progress s = channel_progress (backend s) (VersionedDB.channel s)"

text \<open>The rows \<open>Get\<close> selects from: those of the namespace and key with a block number
  of at most the version ceiling.\<close>

definition matching :: "string \<Rightarrow> string \<Rightarrow> 64 word \<Rightarrow> WriteRecord \<Rightarrow> bool" where
  "matching ns key ceiling r \<longleftrightarrow>
     WriteRecord.Namespace r = ns \<and> WriteRecord.Key r = key \<and> WriteRecord.BlockNum r \<le> ceiling"

text \<open>
  A history of key \<open>k\<close> in namespace \<open>ns\<close>: \<open>"v1"\<close> at block 2, transaction 0; \<open>"v2"\<close> at
  block 3, transaction 0; \<open>"v"\<close> at block 3, transaction 2; and a delete of key \<open>j\<close> at
  block 3, transaction 1.
\<close>

definition wr :: "string \<Rightarrow> 64 word \<Rightarrow> 64 word \<Rightarrow> bytes \<Rightarrow> bool \<Rightarrow> WriteRecord" where
  "wr key b t val del =
     \<lparr>Namespace = ''ns'', WriteRecord.Key = key, WriteRecord.BlockNum = b, WriteRecord.TxNum = t,
      WriteRecord.Value = val, WriteRecord.IsDelete = del, TxID = ''tx''\<rparr>"

definition chain :: VersionedDB where
  "chain = New ''mychannel''
     \<lparr>tables = (\<lambda>_. [])(''worldstate_mychannel'' :=
        [wr ''k'' 3 0 bytes_v2 False, wr ''k'' 2 0 bytes_v1 False,
         wr ''j'' 3 1 None True, wr ''k'' 3 2 bytes_v False]),
      channel_progress = [''mychannel'' \<mapsto> 3]\<rparr>"

text \<open>Inserting the records of a batch one after the other, conflicts ignored.\<close>

definition insert_all :: "WriteRecord list \<Rightarrow> WriteRecord list \<Rightarrow> WriteRecord list" where
  "insert_all rs ws = foldl (\<lambda>rs w. insert_ignore w rs) rs ws"

text \<open>No step of a \<open>BatchInsert\<close> call on \<open>n\<close> records fails.\<close>

definition no_fault :: "sqlenv \<Rightarrow> nat \<Rightarrow> bool" where
  "no_fault env n \<longleftrightarrow>
     begin_err env = None \<and> prepare_err env = None \<and> (\<forall>i<n. exec_err env i = None) \<and>
     mark_err env = None \<and> commit_err env = None"

text \<open>The state a committed transaction of \<open>BatchInsert\<close> leaves.\<close>

definition committed :: "VersionedDB \<Rightarrow> WriteRecord list \<Rightarrow> VersionedDB" where
  "committed s ws =
     s\<lparr>backend := upsert_progress (VersionedDB.channel s) (WriteRecord.BlockNum (hd ws))
         ((backend s)\<lparr>tables := (tables (backend s))(VersionedDB.table s := insert_all (history s) ws)\<rparr>)\<rparr>"

subsection \<open>Sequences of calls on a store\<close>

datatype store_call = CallMarkProcessed "error option" "64 word" | CallBatchInsert sqlenv "WriteRecord list"

fun run_call :: "VersionedDB \<Rightarrow> store_call \<Rightarrow> VersionedDB" where
  "run_call s (CallMarkProcessed xerr b) = fst (snd (MarkProcessed xerr s None b))"
| "run_call s (CallBatchInsert env ws) = snd (BatchInsert env s ws)"

fun Store_run_call :: "Store \<Rightarrow> store_call \<Rightarrow> Store" where
  "Store_run_call sp (CallMarkProcessed xerr b) = fst (snd (Store_MarkProcessed xerr sp None b))"
| "Store_run_call sp (CallBatchInsert env ws) = snd (Store_BatchInsert env sp ws)"

text \<open>The committer's store seen as a store of \<open>storage/db.go\<close> on the same backend.\<close>

definition as_VersionedDB :: "Store \<Rightarrow> VersionedDB" where
  "as_VersionedDB sp =
     \<lparr>VersionedDB.channel = Store.channel sp, VersionedDB.table = Store.table sp, backend = DB sp\<rparr>"

text \<open>
  A store on an empty backend, a batch of two records with different block numbers (4 and
  then 9), and a driver whose \<open>Commit\<close> fails.
\<close>

definition fresh :: VersionedDB where
  "fresh = New ''mychannel'' \<lparr>tables = (\<lambda>_. []), channel_progress = Map.empty\<rparr>"

definition batch :: "WriteRecord list" where
  "batch = [wr ''k'' 4 0 bytes_v1 False, wr ''j'' 9 0 bytes_v2 False]"

definition commit_fails :: sqlenv where
  "commit_fails = healthy\<lparr>commit_err := Some (ErrorsNew ''connection lost'')\<rparr>"

subsection \<open>Polls of WaitUntilSynced\<close>


definition backoffs :: "Duration \<Rightarrow> nat \<Rightarrow> Duration list" where
  "backoffs b n = map (\<lambda>i. b * 2 ^ Suc i) [0..<n]"



subsection \<open>The committer's store\<close>

text \<open>The version history of the committer's store, and that store on the backend of
  \<open>chain\<close> in the SQLite dialect.\<close>

definition Store_history :: "Store \<Rightarrow> WriteRecord list" where
  "Store_history sp = tables (DB sp) (Store.table sp)"

definition committer_store :: Store where
  "committer_store = NewStorage ''mychannel'' (backend chain) ''sqlite''"

section \<open>Properties of the simulation session\<close>

subsection \<open>PutState and DelState\<close>

lemma stored_Key: "stored key c = Some w \<Longrightarrow> KVWrite.Key w = key"
  by (cases c) (auto split: if_splits)

lemma call_writes:
  "writes (call key s c) =
     (case stored key c of None \<Rightarrow> writes s | Some w \<Rightarrow> DAList.update key w (writes s))"
  by (cases c) (auto simp: PutState_def DelState_def)

lemma call_rejected: "stored key c = None \<Longrightarrow> call key s c = s"
  by (cases c) (auto simp: PutState_def split: if_splits)

lemma call_other_key:
  "k \<noteq> key \<Longrightarrow> DAList.lookup (writes (call key s c)) k = DAList.lookup (writes s) k"
  by (cases "stored key c") (simp_all add: call_writes)

lemma calls_other_key:
  "k \<noteq> key \<Longrightarrow> DAList.lookup (writes (foldl (call key) s cs)) k = DAList.lookup (writes s) k"
  by (induction cs arbitrary: s) (simp_all add: call_other_key)

lemma update_keyed:
  "list_all (\<lambda>(k, w). KVWrite.Key w = k) xs \<Longrightarrow> KVWrite.Key w = key \<Longrightarrow>
   list_all (\<lambda>(k, w). KVWrite.Key w = k) (AList.update key w xs)"
  by (induction xs) auto

lemma call_keyed: "keyed s \<Longrightarrow> keyed (call key s c)"
  by (cases "stored key c")
     (auto simp: keyed_def call_writes DAList.update.rep_eq intro: update_keyed dest: stored_Key)

lemma calls_keyed: "keyed s \<Longrightarrow> keyed (foldl (call key) s cs)"
  by (induction cs arbitrary: s) (auto intro: call_keyed)

lemma keyed_filter:
  "list_all (\<lambda>(k, w). KVWrite.Key w = k) xs \<Longrightarrow> distinct (map fst xs) \<Longrightarrow>
   map_of xs key = Some w \<Longrightarrow>
   filter (\<lambda>x. KVWrite.Key x = key) (map snd xs) = [w]"
proof (induction xs)
  case Nil
  then show ?case by simp
next
  case (Cons x xs)
  obtain k e where x: "x = (k, e)" by (cases x)
  show ?case
  proof (cases "k = key")
    case True
    have "filter (\<lambda>x. KVWrite.Key x = key) (map snd xs) = []"
      using Cons.prems True x by (force simp: filter_empty_conv list_all_iff)
    then show ?thesis using Cons.prems True x by simp
  next
    case False
    then show ?thesis using Cons x by auto
  qed
qed

lemma keyed_keys:
  "list_all (\<lambda>(k, w). KVWrite.Key w = k) xs \<Longrightarrow> map KVWrite.Key (map snd xs) = map fst xs"
  by (induction xs) auto

lemma keyed_newStub: "keyed newStub"
  by (simp add: keyed_def newStub_def DAList.empty.rep_eq)

text \<open>Every session \<open>NewSimulationStore\<close> returns is keyed, and \<open>GetState\<close> keeps it so.\<close>

lemma keyed_NewSimulationStore:
  "NewSimulationStore lerr gerr db ns bn row = (Some s, e) \<Longrightarrow> keyed s"
  by (auto simp: NewSimulationStore_def Let_def keyed_def DAList.empty.rep_eq
           split: if_splits prod.splits option.splits)

lemma writes_GetState: "writes (snd (GetState s key)) = writes s"
  by (simp add: GetState_def Let_def split: option.splits prod.splits)

lemma keyed_GetState: "keyed s \<Longrightarrow> keyed (snd (GetState s key))"
  by (simp add: keyed_def writes_GetState)

text \<open>
  C7. Whatever calls of \<open>PutState\<close> and \<open>DelState\<close> on one key came before, after a last
  call that is accepted the write set of \<open>Result\<close> holds exactly one entry for the key, the
  one of that last call; a rejected last call changes nothing; the entries of the other
  keys are those of the start; and no key appears twice in the writes of \<open>Result\<close>.
\<close>

theorem last_write_wins:
  assumes "keyed s"
  shows "(stored key c = Some w \<longrightarrow>
            filter (\<lambda>x. KVWrite.Key x = key) (Writes (Result (foldl (call key) s (cs @ [c])))) = [w]) \<and>
         (stored key c = None \<longrightarrow> foldl (call key) s (cs @ [c]) = foldl (call key) s cs) \<and>
         (k \<noteq> key \<longrightarrow>
            DAList.lookup (writes (foldl (call key) s (cs @ [c]))) k = DAList.lookup (writes s) k) \<and>
         distinct (map KVWrite.Key (Writes (Result (foldl (call key) s (cs @ [c])))))"
proof -
  let ?t = "foldl (call key) s cs"
  let ?u = "foldl (call key) s (cs @ [c])"
  have u: "?u = call key ?t c" by simp
  have ku: "keyed ?u" using assms by (rule calls_keyed)
  have "map KVWrite.Key (Writes (Result ?u)) = map fst (DAList.impl_of (writes ?u))"
    using ku keyed_keys [of "DAList.impl_of (writes ?u)"]
    unfolding Result_def keyed_def by simp
  then have d: "distinct (map KVWrite.Key (Writes (Result ?u)))"
    by (simp only: impl_of_distinct)
  have r: "stored key c = None \<longrightarrow> ?u = ?t"
    by (simp add: call_rejected)
  have o: "k \<noteq> key \<longrightarrow> DAList.lookup (writes ?u) k = DAList.lookup (writes s) k"
    using calls_other_key [of k key s "cs @ [c]"] by blast
  have f: "stored key c = Some w \<longrightarrow> filter (\<lambda>x. KVWrite.Key x = key) (Writes (Result ?u)) = [w]"
  proof
    assume st: "stored key c = Some w"
    have "DAList.lookup (writes ?u) key = Some w"
      unfolding u by (simp add: call_writes st)
    then have "map_of (DAList.impl_of (writes ?u)) key = Some w"
      by (simp add: DAList.lookup.rep_eq)
    with ku show "filter (\<lambda>x. KVWrite.Key x = key) (Writes (Result ?u)) = [w]"
      unfolding Result_def keyed_def
      by (simp add: keyed_filter)
  qed
  from f r o d show ?thesis by blast
qed

theorem last_write_wins_witness:
  "keyed newStub \<and>
   stored ''x'' (CallPutState bytes_v2) = Some \<lparr>KVWrite.Key = ''x'', IsDelete = False, Value = bytes_v2\<rparr> \<and>
   filter (\<lambda>x. KVWrite.Key x = ''x'')
     (Writes (Result (foldl (call ''x'') newStub [CallPutState bytes_v1, CallPutState bytes_v2])))
     = [\<lparr>KVWrite.Key = ''x'', IsDelete = False, Value = bytes_v2\<rparr>] \<and>
   stored ''y'' CallDelState = Some \<lparr>KVWrite.Key = ''y'', IsDelete = True, Value = None\<rparr> \<and>
   filter (\<lambda>x. KVWrite.Key x = ''y'')
     (Writes (Result (foldl (call ''y'') newStub [CallPutState bytes_v, CallDelState])))
     = [\<lparr>KVWrite.Key = ''y'', IsDelete = True, Value = None\<rparr>] \<and>
   stored ''z'' (CallPutState None) = None \<and>
   foldl (call ''z'') newStub [CallDelState, CallPutState None] = foldl (call ''z'') newStub [CallDelState]"
  using last_write_wins [OF keyed_newStub, where key = "''x''" and c = "CallPutState bytes_v2"
          and w = "\<lparr>KVWrite.Key = ''x'', IsDelete = False, Value = bytes_v2\<rparr>" and cs = "[CallPutState bytes_v1]"]
        last_write_wins [OF keyed_newStub, where key = "''y''" and c = "CallDelState"
          and w = "\<lparr>KVWrite.Key = ''y'', IsDelete = True, Value = None\<rparr>" and cs = "[CallPutState bytes_v]"]
        last_write_wins [OF keyed_newStub, where key = "''z''" and c = "CallPutState None"
          and cs = "[CallDelState]"]
        keyed_newStub
  by (simp add: bytes_v2_def len_def)

text \<open>
  C8. \<open>PutState\<close> returns an error exactly when the key is empty or the value is empty or
  nil, and then leaves the session as it was; \<open>DelState\<close> returns no error for any key,
  the empty one included.
\<close>

theorem PutState_DelState_validation:
  "(fst (PutState s key val) \<noteq> None \<longleftrightarrow> key = [] \<or> len val = 0) \<and>
   (fst (PutState s key val) \<noteq> None \<longrightarrow>
      PutState s key val = (Some (ErrorsNew ''key is empty''), s)) \<and>
   fst (DelState s key) = None \<and> fst (DelState s []) = None"
  by (simp add: PutState_def DelState_def)

theorem PutState_DelState_validation_witness:
  "PutState newStub [] (Some [88]) = (Some (ErrorsNew ''key is empty''), newStub) \<and>
   PutState newStub ''z'' None = (Some (ErrorsNew ''key is empty''), newStub) \<and>
   PutState newStub ''z'' (Some []) = (Some (ErrorsNew ''key is empty''), newStub) \<and>
   fst (PutState newStub ''a'' bytes_A) = None"
  using PutState_DelState_validation [of newStub "[]" "Some [88]"]
        PutState_DelState_validation [of newStub "''z''" None]
        PutState_DelState_validation [of newStub "''z''" "Some []"]
        PutState_DelState_validation [of newStub "''a''" bytes_A]
  by (simp add: len_def bytes_A_def)

subsection \<open>GetState\<close>

lemma session_New: "NewSimulationStore None None ledger ''ns'' 100 row = (Some (session row), None)"
  by (simp add: NewSimulationStore_def session_def)

lemma Get_k1: "Get None ledger ''ns'' ''k1'' 100 = (Some rec_k1, None)"
  by (simp add: Get_def ledger_def New_def rec_k1_def rec_gone_def)

lemma Get_k: "Get None ledger ''ns'' ''k'' 100 = (Some rec_gone, None)"
  by (simp add: Get_def ledger_def New_def rec_k1_def rec_gone_def)

lemma Get_nokey: "Get None ledger ''ns'' ''nokey'' 100 = (None, None)"
  by (simp add: Get_def ledger_def New_def rec_k1_def rec_gone_def)

text \<open>
  Without read-your-own-writes the value \<open>GetState\<close> returns is the nil slice on every
  path: the store's value never reaches the caller.
\<close>

lemma GetState_without_own_writes_returns_nil:
  "\<not> readOwnWrites s \<Longrightarrow> fst (fst (GetState s key)) = None"
  by (simp add: GetState_def Let_def split: prod.splits option.splits)

text \<open>
  C1. The latest record of key \<open>k1\<close> at or before the snapshot is live: block 10,
  transaction 1, value \<open>"v1"\<close>. \<open>GetState\<close> records the read with version \<open>{10, 1}\<close>, as
  the claim says, but returns \<open>(nil, nil)\<close> where the claim (and \<open>TestGetState\<close>, case
  "key exists") expects the value \<open>"v1"\<close>.
\<close>

theorem GetState_live_record_returns_nil:
  "Get None ledger ''ns'' ''k1'' 100 = (Some rec_k1, None) \<and>
   \<not> WriteRecord.IsDelete rec_k1 \<and> WriteRecord.Value rec_k1 = bytes_v1 \<and>
   fst (GetState (session False) ''k1'') = (None, None) \<and>
   Reads (Result (snd (GetState (session False) ''k1''))) =
     [\<lparr>KVRead.Key = ''k1'', Version = Some \<lparr>BlockNum = 10, TxNum = 1\<rparr>\<rparr>]"
  by (simp add: Get_k1 GetState_def session_def Result_def DAList.update.rep_eq DAList.empty.rep_eq)
     (simp add: rec_k1_def)

text \<open>
  C2, as stated, fails in a session with read-your-own-writes: after \<open>PutState("k", "A")\<close>
  the latest stored record of \<open>k\<close> is still the delete of block 7, and \<open>GetState("k")\<close>
  returns \<open>"A"\<close>, not \<open>(nil, nil)\<close>.
\<close>

theorem GetState_deleted_own_write_counterexample:
  "readOwnWrites session_put \<and>
   store session_put (namespace session_put) ''k'' (blockNum session_put) = (Some rec_gone, None) \<and>
   WriteRecord.IsDelete rec_gone \<and>
   fst (GetState session_put ''k'') = (Some [65], None) \<and>
   fst (GetState session_put ''k'') \<noteq> (None, None)"
  by (simp add: session_put_def PutState_def len_def bytes_A_def session_def Get_k GetState_def)
     (simp add: rec_gone_def)

text \<open>
  C2, amended. When the read is not answered from the session's own pending writes
  (read-your-own-writes is off, or the key has no pending write): if the store's latest
  record at or before the snapshot is a delete, \<open>GetState\<close> returns \<open>(nil, nil)\<close> and leaves
  the session, so also its read set, as it was; if the store has no record, \<open>GetState\<close>
  returns \<open>(nil, nil)\<close> and stores a \<open>KVRead\<close> with absent version under the key. With
  read-your-own-writes on and a pending write for the key, \<open>GetState\<close> answers from that
  write and records no read.
\<close>

theorem GetState_deleted_or_absent:
  "(\<not> readOwnWrites s \<or> DAList.lookup (writes s) key = None \<longrightarrow>
      (store s (namespace s) key (blockNum s) = (Some r, None) \<and> WriteRecord.IsDelete r \<longrightarrow>
         GetState s key = ((None, None), s)) \<and>
      (store s (namespace s) key (blockNum s) = (None, None) \<longrightarrow>
         GetState s key =
           ((None, None), s\<lparr>reads := DAList.update key \<lparr>KVRead.Key = key, Version = None\<rparr> (reads s)\<rparr>))) \<and>
   (readOwnWrites s \<and> DAList.lookup (writes s) key = Some w \<longrightarrow>
      GetState s key = ((if KVWrite.IsDelete w then None else KVWrite.Value w, None), s))"
  by (auto simp: GetState_def)

theorem GetState_deleted_or_absent_witness:
  "\<not> readOwnWrites (session False) \<and>
   store (session False) (namespace (session False)) ''k'' (blockNum (session False))
     = (Some rec_gone, None) \<and>
   WriteRecord.IsDelete rec_gone \<and>
   GetState (session False) ''k'' = ((None, None), session False) \<and>
   store (session False) (namespace (session False)) ''nokey'' (blockNum (session False))
     = (None, None) \<and>
   fst (GetState (session False) ''nokey'') = (None, None) \<and>
   Reads (Result (snd (GetState (session False) ''nokey''))) = [\<lparr>KVRead.Key = ''nokey'', Version = None\<rparr>] \<and>
   readOwnWrites session_put \<and>
   DAList.lookup (writes session_put) ''k''
     = Some \<lparr>KVWrite.Key = ''k'', IsDelete = False, Value = bytes_A\<rparr> \<and>
   GetState session_put ''k'' = ((bytes_A, None), session_put)"
proof -
  have a: "\<not> readOwnWrites (session False)"
    by (simp add: session_def)
  have b: "store (session False) (namespace (session False)) ''k'' (blockNum (session False))
             = (Some rec_gone, None)"
    by (simp add: session_def Get_k)
  have c: "WriteRecord.IsDelete rec_gone"
    by (simp add: rec_gone_def)
  have d: "store (session False) (namespace (session False)) ''nokey'' (blockNum (session False))
             = (None, None)"
    by (simp add: session_def Get_nokey)
  have e: "readOwnWrites session_put"
    by (simp add: session_put_def PutState_def len_def bytes_A_def session_def)
  have f: "DAList.lookup (writes session_put) ''k''
             = Some \<lparr>KVWrite.Key = ''k'', IsDelete = False, Value = bytes_A\<rparr>"
    by (simp add: session_put_def PutState_def len_def bytes_A_def session_def)
  have g: "Reads (Result (session False\<lparr>reads :=
             DAList.update ''nokey'' \<lparr>KVRead.Key = ''nokey'', Version = None\<rparr> (reads (session False))\<rparr>))
           = [\<lparr>KVRead.Key = ''nokey'', Version = None\<rparr>]"
    by (simp add: Result_def session_def DAList.update.rep_eq DAList.empty.rep_eq)
  show ?thesis
    using a b c d e f g
      GetState_deleted_or_absent [of "session False" "''k''" rec_gone]
      GetState_deleted_or_absent [of "session False" "''nokey''"]
      GetState_deleted_or_absent [of session_put "''k''" _
        "\<lparr>KVWrite.Key = ''k'', IsDelete = False, Value = bytes_A\<rparr>"]
    by simp
qed

section \<open>Properties of the versioned store\<close>

subsection \<open>Get\<close>

lemma lex_trans:
  fixes b1 b2 b3 t1 t2 t3 :: "64 word"
  shows "\<not> (b2 < b1 \<or> (b1 = b2 \<and> t2 < t1)) \<Longrightarrow> \<not> (b3 < b2 \<or> (b2 = b3 \<and> t3 < t2)) \<Longrightarrow>
         \<not> (b3 < b1 \<or> (b1 = b3 \<and> t3 < t1))"
  by (auto simp: not_less)

lemma lex_asym:
  fixes b1 b2 t1 t2 :: "64 word"
  shows "(b2 < b1 \<or> (b1 = b2 \<and> t2 < t1)) \<Longrightarrow> \<not> (b1 < b2 \<or> (b2 = b1 \<and> t1 < t2))"
  by (auto simp: not_less)

lemma lex_iff:
  fixes b1 b2 t1 t2 :: "64 word"
  shows "\<not> (b2 < b1 \<or> (b1 = b2 \<and> t2 < t1)) \<longleftrightarrow> b1 < b2 \<or> (b1 = b2 \<and> t1 \<le> t2)"
  by (auto simp: not_less)

lemma not_newer_trans: "\<not> newer x m \<Longrightarrow> \<not> newer m r \<Longrightarrow> \<not> newer x r"
  unfolding newer_def by (rule lex_trans)

lemma newer_asym: "newer m a \<Longrightarrow> \<not> newer a m"
  unfolding newer_def by (rule lex_asym)

lemma not_newer_iff:
  "\<not> newer x r \<longleftrightarrow>
     WriteRecord.BlockNum x < WriteRecord.BlockNum r \<or>
     (WriteRecord.BlockNum x = WriteRecord.BlockNum r \<and> WriteRecord.TxNum x \<le> WriteRecord.TxNum r)"
  unfolding newer_def by (rule lex_iff)


lemma latest_None: "latest rs = None \<longleftrightarrow> rs = []"
  by (induction rs) (simp_all split: option.splits)

lemma not_newer_refl: "\<not> newer a a"
  unfolding newer_def by simp

lemma latest_ConsE:
  assumes "latest (a # rs) = Some r"
  obtains (single) "latest rs = None" "r = a"
    | (keep) m where "latest rs = Some m" "newer m a" "r = m"
    | (new) m where "latest rs = Some m" "\<not> newer m a" "r = a"
proof (cases "latest rs")
  case None
  with assms have "r = a" by simp
  from single [OF None this] show ?thesis .
next
  case (Some m)
  show ?thesis
  proof (cases "newer m a")
    case True
    with Some assms have "r = m" by simp
    from keep [OF Some True this] show ?thesis .
  next
    case False
    with Some assms have "r = a" by simp
    from new [OF Some False this] show ?thesis .
  qed
qed

lemma latest_mem: "latest rs = Some r \<Longrightarrow> r \<in> set rs"
proof (induction rs arbitrary: r)
  case Nil
  then show ?case by simp
next
  case (Cons a rs)
  from Cons.prems show ?case
  proof (cases rule: latest_ConsE)
    case single
    then show ?thesis by simp
  next
    case (keep m)
    with Cons.IH show ?thesis by simp
  next
    case (new m)
    then show ?thesis by simp
  qed
qed

lemma latest_max: "latest rs = Some r \<Longrightarrow> x \<in> set rs \<Longrightarrow> \<not> newer x r"
proof (induction rs arbitrary: r)
  case Nil
  then show ?case by simp
next
  case (Cons a rs)
  from Cons.prems(1) show ?case
  proof (cases rule: latest_ConsE)
    case single
    then have "rs = []" by (simp add: latest_None)
    with Cons.prems(2) single show ?thesis by (simp add: not_newer_refl)
  next
    case (keep m)
    show ?thesis
    proof (cases "x = a")
      case True
      with keep show ?thesis by (simp add: newer_asym)
    next
      case False
      with Cons.prems(2) have "x \<in> set rs" by simp
      with Cons.IH [OF keep(1)] keep(3) show ?thesis by simp
    qed
  next
    case (new m)
    show ?thesis
    proof (cases "x = a")
      case True
      with new show ?thesis by (simp add: not_newer_refl)
    next
      case False
      with Cons.prems(2) have "x \<in> set rs" by simp
      with Cons.IH [OF new(1)] have "\<not> newer x m" by simp
      from not_newer_trans [OF this new(2)] new(3) show ?thesis by simp
    qed
  qed
qed


lemma Get_eq: "Get None s ns key ceiling = (latest (filter (matching ns key ceiling) (history s)), None)"
  by (simp add: Get_def history_def matching_def [abs_def])

text \<open>
  C6. \<open>Get\<close> reports no error on a working connection. When it returns a record, the
  record is a stored row of the namespace and key with \<open>blockNum \<le> versionCeiling\<close>, and
  every such row has a smaller block number, or the same block number and a transaction
  number that is not larger. It returns no record exactly when no such row is stored.
\<close>

theorem Get_latest_at_or_before:
  "snd (Get None s ns key ceiling) = None \<and>
   (fst (Get None s ns key ceiling) = Some r \<longrightarrow>
      r \<in> set (history s) \<and> matching ns key ceiling r \<and>
      (\<forall>x \<in> set (history s). matching ns key ceiling x \<longrightarrow>
         WriteRecord.BlockNum x < WriteRecord.BlockNum r \<or>
         (WriteRecord.BlockNum x = WriteRecord.BlockNum r \<and>
          WriteRecord.TxNum x \<le> WriteRecord.TxNum r))) \<and>
   (fst (Get None s ns key ceiling) = None \<longleftrightarrow>
      \<not> (\<exists>x \<in> set (history s). matching ns key ceiling x))"
proof (intro conjI impI)
  show "snd (Get None s ns key ceiling) = None"
    by (simp add: Get_eq)
next
  show "fst (Get None s ns key ceiling) = None \<longleftrightarrow>
      \<not> (\<exists>x \<in> set (history s). matching ns key ceiling x)"
    by (simp add: Get_eq latest_None filter_empty_conv)
next
  assume "fst (Get None s ns key ceiling) = Some r"
  then have l: "latest (filter (matching ns key ceiling) (history s)) = Some r"
    by (simp add: Get_eq)
  from latest_mem [OF l] show "r \<in> set (history s)" by simp
  from latest_mem [OF l] show "matching ns key ceiling r" by simp
  show "\<forall>x \<in> set (history s). matching ns key ceiling x \<longrightarrow>
         WriteRecord.BlockNum x < WriteRecord.BlockNum r \<or>
         (WriteRecord.BlockNum x = WriteRecord.BlockNum r \<and>
          WriteRecord.TxNum x \<le> WriteRecord.TxNum r)"
  proof (intro ballI impI)
    fix x assume "x \<in> set (history s)" "matching ns key ceiling x"
    then have "x \<in> set (filter (matching ns key ceiling) (history s))" by simp
    from latest_max [OF l this]
    show "WriteRecord.BlockNum x < WriteRecord.BlockNum r \<or>
         (WriteRecord.BlockNum x = WriteRecord.BlockNum r \<and>
          WriteRecord.TxNum x \<le> WriteRecord.TxNum r)"
      by (simp only: not_newer_iff)
  qed
qed

lemma Get_chain_3: "Get None chain ''ns'' ''k'' 3 = (Some (wr ''k'' 3 2 bytes_v False), None)"
  by (simp add: Get_def chain_def New_def wr_def newer_def)

lemma Get_chain_2: "Get None chain ''ns'' ''k'' 2 = (Some (wr ''k'' 2 0 bytes_v1 False), None)"
  by (simp add: Get_def chain_def New_def wr_def newer_def)

lemma Get_chain_1: "Get None chain ''ns'' ''k'' 1 = (None, None)"
  by (simp add: Get_def chain_def New_def wr_def newer_def word_le_nat_alt)

theorem Get_latest_at_or_before_witness:
  "fst (Get None chain ''ns'' ''k'' 3) = Some (wr ''k'' 3 2 bytes_v False) \<and>
   wr ''k'' 3 2 bytes_v False \<in> set (history chain) \<and>
   filter (matching ''ns'' ''k'' 3) (history chain) =
     [wr ''k'' 3 0 bytes_v2 False, wr ''k'' 2 0 bytes_v1 False, wr ''k'' 3 2 bytes_v False] \<and>
   fst (Get None chain ''ns'' ''k'' 2) = Some (wr ''k'' 2 0 bytes_v1 False) \<and>
   fst (Get None chain ''ns'' ''k'' 1) = None \<and>
   \<not> (\<exists>x \<in> set (history chain). matching ''ns'' ''k'' 1 x)"
proof -
  have f: "filter (matching ''ns'' ''k'' 3) (history chain) =
     [wr ''k'' 3 0 bytes_v2 False, wr ''k'' 2 0 bytes_v1 False, wr ''k'' 3 2 bytes_v False]"
    by (simp add: history_def chain_def New_def matching_def wr_def)
  show ?thesis
    using Get_latest_at_or_before [of chain "''ns''" "''k''" 3 "wr ''k'' 3 2 bytes_v False"]
          Get_latest_at_or_before [of chain "''ns''" "''k''" 2 "wr ''k'' 2 0 bytes_v1 False"]
          Get_latest_at_or_before [of chain "''ns''" "''k''" 1]
    by (simp add: Get_chain_3 Get_chain_2 Get_chain_1 f)
qed

subsection \<open>BatchInsert and MarkProcessed\<close>

lemma upsert_tables: "tables (upsert_progress ch b db) = tables db"
  by (simp add: upsert_progress_def split: option.splits)

lemma upsert_same:
  "channel_progress (upsert_progress ch b db) ch =
     Some (case channel_progress db ch of None \<Rightarrow> b | Some old \<Rightarrow> if old < b then b else old)"
  by (simp add: upsert_progress_def split: option.splits)

lemma upsert_other: "c \<noteq> ch \<Longrightarrow> channel_progress (upsert_progress ch b db) c = channel_progress db c"
  by (simp add: upsert_progress_def split: option.splits)

lemma upsert_idem: "upsert_progress ch b (upsert_progress ch b db) = upsert_progress ch b db"
  by (simp add: upsert_progress_def split: option.splits)

lemma insert_all_Nil [simp]: "insert_all rs [] = rs"
  by (simp add: insert_all_def)

lemma insert_all_Cons [simp]: "insert_all rs (w # ws) = insert_all (insert_ignore w rs) ws"
  by (simp add: insert_all_def)

lemma BatchInsert_unfold:
  "BatchInsert env s (w0 # ws) =
     (case begin_err env of
        Some e \<Rightarrow> (Some (Errorf ''begin batch insert: '' e), s)
      | None \<Rightarrow>
     (case prepare_err env of
        Some e \<Rightarrow> (Some (Errorf ''prepare batch insert: '' e), s)
      | None \<Rightarrow>
     (case exec_writes (exec_err env) 0 (w0 # ws) (history s) of
        Inl e \<Rightarrow> (Some e, s)
      | Inr rs \<Rightarrow>
     (case mark_err env of
        Some e \<Rightarrow> (Some (Errorf ''update last block exec: '' e), s)
      | None \<Rightarrow>
     (case commit_err env of
        Some e \<Rightarrow> (Some (Errorf ''commit batch insert: '' e), s)
      | None \<Rightarrow>
          (None, s\<lparr>backend := upsert_progress (VersionedDB.channel s) (WriteRecord.BlockNum w0)
                      ((backend s)\<lparr>tables := (tables (backend s))(VersionedDB.table s := rs)\<rparr>)\<rparr>))))))"
  by (simp add: BatchInsert_def MarkProcessed_def history_def Let_def split: option.splits sum.splits)

lemma exec_writes_Inr:
  "exec_writes xe i ws rs = Inr rs' \<Longrightarrow>
     rs' = insert_all rs ws \<and> (\<forall>j<length ws. xe (i + j) = None)"
proof (induction ws arbitrary: i rs)
  case Nil
  then show ?case by simp
next
  case (Cons w ws)
  from Cons.prems have x: "xe i = None"
    by (cases "xe i") simp_all
  with Cons.prems have "exec_writes xe (Suc i) ws (insert_ignore w rs) = Inr rs'" by simp
  from Cons.IH [OF this]
  have a: "rs' = insert_all (insert_ignore w rs) ws"
    and b: "\<forall>j<length ws. xe (Suc i + j) = None" by simp_all
  have "\<forall>j<length (w # ws). xe (i + j) = None"
  proof (intro allI impI)
    fix j assume j: "j < length (w # ws)"
    show "xe (i + j) = None"
    proof (cases j)
      case 0
      with x show ?thesis by simp
    next
      case (Suc j')
      with j b show ?thesis by simp
    qed
  qed
  with a show ?case by simp
qed

lemma exec_writes_Inl:
  "exec_writes xe i ws rs = Inl e \<Longrightarrow>
     \<exists>j<length ws. \<exists>c. xe (i + j) = Some c \<and> e = Errorf ''batch insert exec: '' c"
proof (induction ws arbitrary: i rs)
  case Nil
  then show ?case by simp
next
  case (Cons w ws)
  show ?case
  proof (cases "xe i")
    case None
    with Cons.prems have "exec_writes xe (Suc i) ws (insert_ignore w rs) = Inl e" by simp
    from Cons.IH [OF this] obtain j c where
      "j < length ws" "xe (Suc i + j) = Some c" "e = Errorf ''batch insert exec: '' c" by blast
    then have "Suc j < length (w # ws) \<and> xe (i + Suc j) = Some c \<and> e = Errorf ''batch insert exec: '' c"
      by simp
    then show ?thesis by blast
  next
    case (Some c)
    with Cons.prems have "e = Errorf ''batch insert exec: '' c" by simp
    with Some have "0 < length (w # ws) \<and> xe (i + 0) = Some c \<and> e = Errorf ''batch insert exec: '' c"
      by simp
    then show ?thesis by blast
  qed
qed

lemma exec_writes_ok:
  "(\<forall>j<length ws. xe (i + j) = None) \<Longrightarrow>
     exec_writes xe i ws rs = Inr (insert_all rs ws)"
proof (induction ws arbitrary: i rs)
  case Nil
  then show ?case by simp
next
  case (Cons w ws)
  from Cons.prems have x: "xe i = None" by force
  have "\<forall>j<length ws. xe (Suc i + j) = None"
  proof (intro allI impI)
    fix j assume "j < length ws"
    then have "Suc j < length (w # ws)" by simp
    with Cons.prems have "xe (i + Suc j) = None" by blast
    then show "xe (Suc i + j) = None" by simp
  qed
  from Cons.IH [OF this] x show ?case by simp
qed


lemma insert_ignore_present:
  "list_ex (\<lambda>r. primary_key r = primary_key w) rs \<Longrightarrow> insert_ignore w rs = rs"
  by (simp add: insert_ignore_def)

lemma insert_ignore_has: "list_ex (\<lambda>r. primary_key r = primary_key w) (insert_ignore w rs)"
  by (simp add: insert_ignore_def list_ex_iff)

lemma insert_ignore_keeps:
  "list_ex (\<lambda>r. primary_key r = k) rs \<Longrightarrow> list_ex (\<lambda>r. primary_key r = k) (insert_ignore w rs)"
  by (simp add: insert_ignore_def list_ex_iff)

lemma inserts_keep:
  "list_ex (\<lambda>r. primary_key r = k) rs \<Longrightarrow>
   list_ex (\<lambda>r. primary_key r = k) (insert_all rs ws)"
  by (induction ws arbitrary: rs) (simp_all add: insert_ignore_keeps)

lemma inserts_have:
  "w \<in> set ws \<Longrightarrow>
   list_ex (\<lambda>r. primary_key r = primary_key w) (insert_all rs ws)"
proof (induction ws arbitrary: rs)
  case Nil
  then show ?case by simp
next
  case (Cons a ws)
  show ?case
  proof (cases "w = a")
    case True
    then show ?thesis by (simp add: inserts_keep insert_ignore_has)
  next
    case False
    with Cons.prems have "w \<in> set ws" by simp
    from Cons.IH [OF this] show ?thesis by simp
  qed
qed

lemma inserts_prefix:
  "\<exists>new. insert_all rs ws = rs @ new"
proof (induction ws arbitrary: rs)
  case Nil
  then show ?case by simp
next
  case (Cons a ws)
  from Cons.IH [of "insert_ignore a rs"] obtain new where
    n: "insert_all (insert_ignore a rs) ws = insert_ignore a rs @ new" ..
  show ?case
  proof (cases "list_ex (\<lambda>r. primary_key r = primary_key a) rs")
    case True
    with n show ?thesis by (simp add: insert_ignore_def)
  next
    case False
    with n show ?thesis by (simp add: insert_ignore_def)
  qed
qed

lemma inserts_absorbed:
  "(\<forall>w \<in> set ws. list_ex (\<lambda>r. primary_key r = primary_key w) rs) \<Longrightarrow>
   insert_all rs ws = rs"
  by (induction ws) (simp_all add: insert_ignore_present)

lemma inserts_idem:
  "insert_all (insert_all rs ws) ws =
   insert_all rs ws"
  by (rule inserts_absorbed) (simp add: inserts_have)


lemma BatchInsert_ok:
  assumes "no_fault env (length (w0 # ws))"
  shows "BatchInsert env s (w0 # ws) = (None, committed s (w0 # ws))"
proof -
  from assms have e: "\<forall>j<length (w0 # ws). exec_err env (0 + j) = None"
    by (simp add: no_fault_def)
  from assms exec_writes_ok [OF e, of "history s"] show ?thesis
    by (simp add: BatchInsert_unfold no_fault_def committed_def)
qed

lemma BatchInsert_fault:
  assumes "\<not> no_fault env (length (w0 # ws))"
  shows "\<exists>p c. BatchInsert env s (w0 # ws) = (Some (Errorf p c), s)"
proof (cases "begin_err env")
  case (Some e)
  then show ?thesis by (simp add: BatchInsert_unfold)
next
  case b: None
  show ?thesis
  proof (cases "prepare_err env")
    case (Some e)
    with b show ?thesis by (simp add: BatchInsert_unfold)
  next
    case p: None
    show ?thesis
    proof (cases "exec_writes (exec_err env) 0 (w0 # ws) (history s)")
      case (Inl e)
      from exec_writes_Inl [OF Inl] obtain c where "e = Errorf ''batch insert exec: '' c" by blast
      with b p Inl show ?thesis by (simp add: BatchInsert_unfold)
    next
      case (Inr rs)
      from exec_writes_Inr [OF Inr] have x: "\<forall>i<length (w0 # ws). exec_err env i = None" by simp
      show ?thesis
      proof (cases "mark_err env")
        case (Some e)
        with b p Inr show ?thesis by (simp add: BatchInsert_unfold)
      next
        case m: None
        show ?thesis
        proof (cases "commit_err env")
          case (Some e)
          with b p Inr m show ?thesis by (simp add: BatchInsert_unfold)
        next
          case None
          with b p m x have "no_fault env (length (w0 # ws))"
            by (simp only: no_fault_def simp_thms)
          with assms show ?thesis by simp
        qed
      qed
    qed
  qed
qed

lemma history_committed: "history (committed s ws) = insert_all (history s) ws"
  by (simp add: committed_def history_def upsert_tables)

lemma progress_committed:
  "progress (committed s ws) =
     Some (case progress s of None \<Rightarrow> WriteRecord.BlockNum (hd ws)
           | Some old \<Rightarrow> if old < WriteRecord.BlockNum (hd ws) then WriteRecord.BlockNum (hd ws) else old)"
  by (simp add: committed_def progress_def upsert_progress_def split: option.splits)

lemma committed_idem: "committed (committed s ws) ws = committed s ws"
proof -
  let ?s' = "committed s ws"
  have h: "insert_all (history ?s') ws = tables (backend ?s') (VersionedDB.table ?s')"
    by (simp add: history_committed inserts_idem) (simp add: committed_def upsert_tables history_def)
  have c: "VersionedDB.channel ?s' = VersionedDB.channel s"
    by (simp add: committed_def)
  have u: "upsert_progress (VersionedDB.channel s) (WriteRecord.BlockNum (hd ws)) (backend ?s') = backend ?s'"
    by (simp add: committed_def upsert_idem)
  show ?thesis
    unfolding committed_def [of ?s'] h c
    by (simp add: u)
qed

lemma lpb_eq: "fst (LastProcessedBlock None s) = (case progress s of None \<Rightarrow> 0 | Some b \<Rightarrow> b)"
  by (simp add: LastProcessedBlock_def progress_def split: option.splits)

lemma word_max_0: "max (0::64 word) b = b"
  by (simp add: max_def)

lemma if_less_max: "(if old < b then b else old) = max old (b::64 word)"
  by (auto simp: max_def)

lemma lpb_committed:
  "fst (LastProcessedBlock None (committed s ws)) =
     max (fst (LastProcessedBlock None s)) (WriteRecord.BlockNum (hd ws))"
  by (simp add: lpb_eq progress_committed word_max_0 if_less_max split: option.splits)

lemma lpb_mark:
  "fst (LastProcessedBlock None (fst (snd (MarkProcessed None s None b)))) =
     max (fst (LastProcessedBlock None s)) b"
  by (simp add: lpb_eq MarkProcessed_def progress_def upsert_progress_def word_max_0 if_less_max
           split: option.splits)

lemma mark_failed: "MarkProcessed (Some e) s tx b = (Some (Errorf ''update last block exec: '' e), s, tx)"
  by (simp add: MarkProcessed_def)

lemma BatchInsert_state:
  "snd (BatchInsert env s ws) = s \<or> (ws \<noteq> [] \<and> snd (BatchInsert env s ws) = committed s ws)"
proof (cases ws)
  case Nil
  then show ?thesis by (simp add: BatchInsert_def)
next
  case (Cons w0 ws')
  show ?thesis
  proof (cases "no_fault env (length (w0 # ws'))")
    case True
    from BatchInsert_ok [OF True, of s] Cons show ?thesis by simp
  next
    case False
    from BatchInsert_fault [OF False, of s] Cons show ?thesis by auto
  qed
qed

lemma run_call_mono: "fst (LastProcessedBlock None s) \<le> fst (LastProcessedBlock None (run_call s c))"
proof (cases c)
  case (CallMarkProcessed xerr b)
  show ?thesis
  proof (cases xerr)
    case None
    with CallMarkProcessed show ?thesis by (simp add: lpb_mark)
  next
    case (Some e)
    with CallMarkProcessed show ?thesis by (simp add: mark_failed)
  qed
next
  case (CallBatchInsert env ws)
  from BatchInsert_state [of env s ws] CallBatchInsert show ?thesis
    by (elim disjE conjE) (simp_all add: lpb_committed)
qed

lemma run_calls_mono:
  "fst (LastProcessedBlock None s) \<le> fst (LastProcessedBlock None (foldl run_call s cs))"
proof (induction cs arbitrary: s)
  case Nil
  then show ?case by simp
next
  case (Cons c cs)
  have "fst (LastProcessedBlock None s) \<le> fst (LastProcessedBlock None (run_call s c))"
    by (rule run_call_mono)
  also have "\<dots> \<le> fst (LastProcessedBlock None (foldl run_call (run_call s c) cs))"
    by (rule Cons.IH)
  finally show ?case by simp
qed

lemma as_VersionedDB_DB: "as_VersionedDB (sp\<lparr>DB := d\<rparr>) = (as_VersionedDB sp)\<lparr>backend := d\<rparr>"
  by (simp add: as_VersionedDB_def)

lemma as_VersionedDB_same: "sp\<lparr>DB := backend (as_VersionedDB sp)\<rparr> = sp"
  by (simp add: as_VersionedDB_def)

lemma Store_lpb: "Store_LastProcessedBlock q sp = LastProcessedBlock q (as_VersionedDB sp)"
  by (simp add: Store_LastProcessedBlock_def LastProcessedBlock_def as_VersionedDB_def split: option.splits)

lemma Store_MarkProcessed_supported:
  "supported (Backend sp) \<Longrightarrow>
   Store_MarkProcessed xerr sp tx b =
     (fst (MarkProcessed xerr (as_VersionedDB sp) tx b),
      sp\<lparr>DB := backend (fst (snd (MarkProcessed xerr (as_VersionedDB sp) tx b)))\<rparr>,
      snd (snd (MarkProcessed xerr (as_VersionedDB sp) tx b)))"
  by (simp add: Store_MarkProcessed_def MarkProcessed_def as_VersionedDB_def split: option.splits)

lemma Store_MarkProcessed_unsupported:
  "\<not> supported (Backend sp) \<Longrightarrow>
   Store_MarkProcessed xerr sp tx b = (Some (ErrorsNew (''unsupported backend: '' @ Backend sp)), sp, tx)"
  by (simp add: Store_MarkProcessed_def)

lemma Store_BatchInsert_supported:
  "supported (Backend sp) \<Longrightarrow>
   Store_BatchInsert env sp ws =
     (fst (BatchInsert env (as_VersionedDB sp) ws),
      sp\<lparr>DB := backend (snd (BatchInsert env (as_VersionedDB sp) ws))\<rparr>)"
  by (simp add: Store_BatchInsert_def BatchInsert_def Store_MarkProcessed_def MarkProcessed_def
        as_VersionedDB_def Let_def split: list.splits option.splits sum.splits)

lemma Store_BatchInsert_unsupported:
  "\<not> supported (Backend sp) \<Longrightarrow>
   snd (Store_BatchInsert env sp ws) = sp \<and> (ws \<noteq> [] \<longrightarrow> fst (Store_BatchInsert env sp ws) \<noteq> None)"
  by (simp add: Store_BatchInsert_def Let_def split: list.splits option.splits)

lemma Store_run_call_Backend: "Backend (Store_run_call sp c) = Backend sp"
proof (cases "supported (Backend sp)")
  case True
  then show ?thesis
    by (cases c) (simp_all add: Store_MarkProcessed_supported Store_BatchInsert_supported)
next
  case False
  then show ?thesis
    by (cases c) (simp_all add: Store_MarkProcessed_unsupported Store_BatchInsert_unsupported)
qed

lemma Store_run_call_eq:
  "as_VersionedDB (Store_run_call sp c) =
     (if supported (Backend sp) then run_call (as_VersionedDB sp) c else as_VersionedDB sp)"
proof (cases "supported (Backend sp)")
  case True
  have m: "\<And>xerr b. backend (fst (snd (MarkProcessed xerr (as_VersionedDB sp) None b))) =
             backend (fst (snd (MarkProcessed xerr (as_VersionedDB sp) None b)))" by simp
  have mk: "\<And>xerr b. (as_VersionedDB sp)\<lparr>backend := backend (fst (snd (MarkProcessed xerr (as_VersionedDB sp) None b)))\<rparr>
             = fst (snd (MarkProcessed xerr (as_VersionedDB sp) None b))"
    by (simp add: MarkProcessed_def split: option.splits)
  have bk: "\<And>env ws. (as_VersionedDB sp)\<lparr>backend := backend (snd (BatchInsert env (as_VersionedDB sp) ws))\<rparr>
             = snd (BatchInsert env (as_VersionedDB sp) ws)"
  proof -
    fix env ws
    from BatchInsert_state [of env "as_VersionedDB sp" ws]
    show "(as_VersionedDB sp)\<lparr>backend := backend (snd (BatchInsert env (as_VersionedDB sp) ws))\<rparr>
             = snd (BatchInsert env (as_VersionedDB sp) ws)"
      by (elim disjE conjE) (simp_all add: committed_def)
  qed
  from True show ?thesis
    by (cases c)
       (simp_all add: Store_MarkProcessed_supported Store_BatchInsert_supported as_VersionedDB_DB mk bk)
next
  case False
  then show ?thesis
    by (cases c) (simp_all add: Store_MarkProcessed_unsupported Store_BatchInsert_unsupported)
qed

lemma Store_run_call_mono:
  "fst (Store_LastProcessedBlock None sp) \<le> fst (Store_LastProcessedBlock None (Store_run_call sp c))"
  by (simp add: Store_lpb Store_run_call_eq run_call_mono)

lemma Store_run_calls_mono:
  "fst (Store_LastProcessedBlock None sp) \<le> fst (Store_LastProcessedBlock None (foldl Store_run_call sp cs))"
proof (induction cs arbitrary: sp)
  case Nil
  then show ?case by simp
next
  case (Cons c cs)
  have "fst (Store_LastProcessedBlock None sp) \<le> fst (Store_LastProcessedBlock None (Store_run_call sp c))"
    by (rule Store_run_call_mono)
  also have "\<dots> \<le> fst (Store_LastProcessedBlock None (foldl Store_run_call (Store_run_call sp c) cs))"
    by (rule Cons.IH)
  finally show ?case by simp
qed

lemma BatchInsert_Nil: "BatchInsert env s [] = (None, s)"
  by (simp add: BatchInsert_def)

lemma Store_BatchInsert_Nil: "Store_BatchInsert env sp [] = (None, sp)"
  by (simp add: Store_BatchInsert_def)

lemma BatchInsert_ok_hd:
  "ws \<noteq> [] \<Longrightarrow> no_fault env (length ws) \<Longrightarrow> BatchInsert env s ws = (None, committed s ws)"
  by (cases ws) (simp_all add: BatchInsert_ok)

lemma BatchInsert_fault_hd:
  "ws \<noteq> [] \<Longrightarrow> \<not> no_fault env (length ws) \<Longrightarrow> \<exists>p c. BatchInsert env s ws = (Some (Errorf p c), s)"
  by (cases ws) (simp_all add: BatchInsert_fault)

lemma Store_BatchInsert_rollback:
  "fst (Store_BatchInsert env sp ws) \<noteq> None \<Longrightarrow> snd (Store_BatchInsert env sp ws) = sp"
proof (cases "supported (Backend sp)")
  case False
  then show ?thesis by (simp add: Store_BatchInsert_unsupported)
next
  case True
  assume f: "fst (Store_BatchInsert env sp ws) \<noteq> None"
  with True have e: "fst (BatchInsert env (as_VersionedDB sp) ws) \<noteq> None"
    by (simp add: Store_BatchInsert_supported)
  have "ws \<noteq> []" using e by (auto simp: BatchInsert_Nil)
  moreover have "\<not> no_fault env (length ws)"
    using e BatchInsert_ok_hd [OF \<open>ws \<noteq> []\<close>, of env "as_VersionedDB sp"] by auto
  ultimately obtain p c where "BatchInsert env (as_VersionedDB sp) ws = (Some (Errorf p c), as_VersionedDB sp)"
    using BatchInsert_fault_hd by blast
  with True show ?thesis
    by (simp add: Store_BatchInsert_supported as_VersionedDB_same)
qed

lemma Store_BatchInsert_fails:
  assumes "ws \<noteq> []" "\<not> no_fault env (length ws) \<or> \<not> supported (Backend sp)"
  shows "fst (Store_BatchInsert env sp ws) \<noteq> None"
proof (cases "supported (Backend sp)")
  case False
  with assms(1) show ?thesis by (simp add: Store_BatchInsert_unsupported)
next
  case True
  with assms(2) have "\<not> no_fault env (length ws)" by simp
  from BatchInsert_fault_hd [OF assms(1) this, of "as_VersionedDB sp"] True
  show ?thesis by (auto simp: Store_BatchInsert_supported)
qed

lemma Store_history_eq: "Store_history sp = history (as_VersionedDB sp)"
  by (simp add: Store_history_def history_def as_VersionedDB_def)

lemma as_VersionedDB_committed:
  "as_VersionedDB (sp\<lparr>DB := backend (committed (as_VersionedDB sp) ws)\<rparr>) =
     committed (as_VersionedDB sp) ws"
  by (simp add: as_VersionedDB_DB committed_def)

lemma Store_BatchInsert_ok:
  assumes "ws \<noteq> []" "no_fault env (length ws)" "supported (Backend sp)"
  shows "Store_BatchInsert env sp ws =
           (None, sp\<lparr>DB := backend (committed (as_VersionedDB sp) ws)\<rparr>)"
  using assms by (simp add: Store_BatchInsert_supported BatchInsert_ok_hd)

lemma Store_history_committed:
  "Store_history (sp\<lparr>DB := backend (committed (as_VersionedDB sp) ws)\<rparr>) =
     insert_all (Store_history sp) ws"
  by (simp only: Store_history_eq as_VersionedDB_committed history_committed)

lemma Store_lpb_committed:
  "fst (Store_LastProcessedBlock None (sp\<lparr>DB := backend (committed (as_VersionedDB sp) ws)\<rparr>)) =
     max (fst (Store_LastProcessedBlock None sp)) (WriteRecord.BlockNum (hd ws))"
  by (simp only: Store_lpb as_VersionedDB_committed lpb_committed)

text \<open>
  C3. \<open>BatchInsert\<close> on no records returns nil and changes nothing. On a non-empty batch,
  when no step fails, it returns nil, the history is the old one followed by the records
  whose primary key was new (so every record's primary key is then stored), and the progress
  is advanced, all in the one committed transaction, which changes nothing else. When some
  step fails it returns a wrapped error and the store is exactly the one before the call.
  The committer's copy does the same on a supported backend: on success its history and its
  progress are those of the committed transaction; it fails, unchanged, when a step fails
  or the backend name is unsupported.
\<close>

theorem BatchInsert_all_or_nothing:
  "BatchInsert env s [] = (None, s) \<and>
   (ws \<noteq> [] \<and> no_fault env (length ws) \<longrightarrow>
      fst (BatchInsert env s ws) = None \<and>
      history (snd (BatchInsert env s ws)) = insert_all (history s) ws \<and>
      (\<exists>new. history (snd (BatchInsert env s ws)) = history s @ new) \<and>
      (\<forall>w \<in> set ws. list_ex (\<lambda>r. primary_key r = primary_key w)
                        (history (snd (BatchInsert env s ws)))) \<and>
      fst (LastProcessedBlock None (snd (BatchInsert env s ws))) =
        max (fst (LastProcessedBlock None s)) (WriteRecord.BlockNum (hd ws))) \<and>
   (ws \<noteq> [] \<and> \<not> no_fault env (length ws) \<longrightarrow>
      (\<exists>p c. BatchInsert env s ws = (Some (Errorf p c), s))) \<and>
   Store_BatchInsert env sp [] = (None, sp) \<and>
   (fst (Store_BatchInsert env sp ws) \<noteq> None \<longrightarrow> snd (Store_BatchInsert env sp ws) = sp) \<and>
   (ws \<noteq> [] \<and> (\<not> no_fault env (length ws) \<or> \<not> supported (Backend sp)) \<longrightarrow>
      fst (Store_BatchInsert env sp ws) \<noteq> None) \<and>
   (ws \<noteq> [] \<and> no_fault env (length ws) \<longrightarrow> snd (BatchInsert env s ws) = committed s ws) \<and>
   (ws \<noteq> [] \<and> no_fault env (length ws) \<and> supported (Backend sp) \<longrightarrow>
      Store_BatchInsert env sp ws =
        (None, sp\<lparr>DB := backend (committed (as_VersionedDB sp) ws)\<rparr>) \<and>
      Store_history (snd (Store_BatchInsert env sp ws)) = insert_all (Store_history sp) ws \<and>
      (\<exists>new. Store_history (snd (Store_BatchInsert env sp ws)) = Store_history sp @ new) \<and>
      (\<forall>w \<in> set ws. list_ex (\<lambda>r. primary_key r = primary_key w)
                        (Store_history (snd (Store_BatchInsert env sp ws)))) \<and>
      fst (Store_LastProcessedBlock None (snd (Store_BatchInsert env sp ws))) =
        max (fst (Store_LastProcessedBlock None sp)) (WriteRecord.BlockNum (hd ws)))"
proof (intro conjI impI)
  show "snd (BatchInsert env s ws) = committed s ws" if "ws \<noteq> [] \<and> no_fault env (length ws)"
    using that by (simp add: BatchInsert_ok_hd)
next
  assume a: "ws \<noteq> [] \<and> no_fault env (length ws) \<and> supported (Backend sp)"
  then have b: "Store_BatchInsert env sp ws =
        (None, sp\<lparr>DB := backend (committed (as_VersionedDB sp) ws)\<rparr>)"
    by (simp add: Store_BatchInsert_ok)
  then show "Store_BatchInsert env sp ws =
        (None, sp\<lparr>DB := backend (committed (as_VersionedDB sp) ws)\<rparr>)" .
  show "Store_history (snd (Store_BatchInsert env sp ws)) = insert_all (Store_history sp) ws"
    by (simp only: b snd_conv Store_history_committed)
  show "\<exists>new. Store_history (snd (Store_BatchInsert env sp ws)) = Store_history sp @ new"
    by (simp only: b snd_conv Store_history_committed inserts_prefix)
  show "\<forall>w \<in> set ws. list_ex (\<lambda>r. primary_key r = primary_key w)
                        (Store_history (snd (Store_BatchInsert env sp ws)))"
    by (simp add: b Store_history_committed inserts_have)
  show "fst (Store_LastProcessedBlock None (snd (Store_BatchInsert env sp ws))) =
        max (fst (Store_LastProcessedBlock None sp)) (WriteRecord.BlockNum (hd ws))"
    by (simp only: b snd_conv Store_lpb_committed)
next
  show "BatchInsert env s [] = (None, s)" by (rule BatchInsert_Nil)
  show "Store_BatchInsert env sp [] = (None, sp)" by (rule Store_BatchInsert_Nil)
  show "snd (Store_BatchInsert env sp ws) = sp" if "fst (Store_BatchInsert env sp ws) \<noteq> None"
    using that by (rule Store_BatchInsert_rollback)
  show "fst (Store_BatchInsert env sp ws) \<noteq> None"
    if "ws \<noteq> [] \<and> (\<not> no_fault env (length ws) \<or> \<not> supported (Backend sp))"
    using that Store_BatchInsert_fails by blast
  show "\<exists>p c. BatchInsert env s ws = (Some (Errorf p c), s)"
    if "ws \<noteq> [] \<and> \<not> no_fault env (length ws)"
    using that BatchInsert_fault_hd by blast
next
  assume "ws \<noteq> [] \<and> no_fault env (length ws)"
  then have b: "BatchInsert env s ws = (None, committed s ws)"
    by (simp add: BatchInsert_ok_hd)
  show "fst (BatchInsert env s ws) = None" by (simp add: b)
  show "history (snd (BatchInsert env s ws)) = insert_all (history s) ws"
    by (simp add: b history_committed)
  show "\<exists>new. history (snd (BatchInsert env s ws)) = history s @ new"
    by (simp add: b history_committed inserts_prefix)
  show "\<forall>w \<in> set ws. list_ex (\<lambda>r. primary_key r = primary_key w)
                        (history (snd (BatchInsert env s ws)))"
    by (simp add: b history_committed inserts_have)
  show "fst (LastProcessedBlock None (snd (BatchInsert env s ws))) =
        max (fst (LastProcessedBlock None s)) (WriteRecord.BlockNum (hd ws))"
    by (simp add: b lpb_committed)
qed

lemma batch_nonempty: "batch \<noteq> []"
  by (simp add: batch_def)

lemma no_fault_healthy: "no_fault healthy n"
  by (simp add: no_fault_def healthy_def)

lemma commit_fails_fault: "\<not> no_fault commit_fails n"
  by (simp add: no_fault_def commit_fails_def)

lemma history_chain:
  "history chain = [wr ''k'' 3 0 bytes_v2 False, wr ''k'' 2 0 bytes_v1 False,
                    wr ''j'' 3 1 None True, wr ''k'' 3 2 bytes_v False]"
  by (simp add: history_def chain_def New_def)

lemma insert_all_chain_batch: "insert_all (history chain) batch = history chain @ batch"
  by (simp add: history_chain batch_def insert_ignore_def primary_key_def wr_def)

lemma lpb_chain: "fst (LastProcessedBlock None chain) = 3"
  by (simp add: LastProcessedBlock_def chain_def New_def)

lemma hd_batch: "WriteRecord.BlockNum (hd batch) = 4"
  by (simp add: batch_def wr_def)

lemma committer_store_supported: "supported (Backend committer_store)"
  by (simp add: committer_store_def NewStorage_def supported_def)

lemma Store_history_committer: "Store_history committer_store = history chain"
  by (simp add: Store_history_def committer_store_def NewStorage_def history_def chain_def New_def)

lemma Store_lpb_committer: "fst (Store_LastProcessedBlock None committer_store) = 3"
  by (simp add: Store_LastProcessedBlock_def committer_store_def NewStorage_def chain_def New_def)

theorem BatchInsert_all_or_nothing_witness:
  "batch \<noteq> [] \<and> no_fault healthy (length batch) \<and>
   fst (BatchInsert healthy chain batch) = None \<and>
   history (snd (BatchInsert healthy chain batch)) = history chain @ batch \<and>
   fst (LastProcessedBlock None (snd (BatchInsert healthy chain batch))) = 4 \<and>
   \<not> no_fault commit_fails (length batch) \<and>
   (\<exists>p c. BatchInsert commit_fails chain batch = (Some (Errorf p c), chain)) \<and>
   supported (Backend committer_store) \<and>
   fst (Store_BatchInsert healthy committer_store batch) = None \<and>
   Store_history (snd (Store_BatchInsert healthy committer_store batch)) = history chain @ batch \<and>
   fst (Store_LastProcessedBlock None (snd (Store_BatchInsert healthy committer_store batch))) = 4 \<and>
   fst (Store_BatchInsert commit_fails committer_store batch) \<noteq> None \<and>
   snd (Store_BatchInsert commit_fails committer_store batch) = committer_store"
proof -
  have m: "max (3::64 word) 4 = 4" by simp
  have p: "batch \<noteq> [] \<and> no_fault healthy (length batch)"
    by (simp add: batch_nonempty no_fault_healthy)
  have q: "batch \<noteq> [] \<and> no_fault healthy (length batch) \<and> supported (Backend committer_store)"
    by (simp add: batch_nonempty no_fault_healthy committer_store_supported)
  have f: "batch \<noteq> [] \<and> \<not> no_fault commit_fails (length batch)"
    by (simp add: batch_nonempty commit_fails_fault)
  have g: "batch \<noteq> [] \<and>
           (\<not> no_fault commit_fails (length batch) \<or> \<not> supported (Backend committer_store))"
    by (simp add: batch_nonempty commit_fails_fault)
  note ok = BatchInsert_all_or_nothing [of healthy chain batch committer_store]
  note ko = BatchInsert_all_or_nothing [of commit_fails chain batch committer_store]
  note a = ok [THEN conjunct2, THEN conjunct1, THEN mp, OF p]
  note b = ko [THEN conjunct2, THEN conjunct2, THEN conjunct1, THEN mp, OF f]
  note c = ko [THEN conjunct2, THEN conjunct2, THEN conjunct2, THEN conjunct2, THEN conjunct2,
               THEN conjunct1, THEN mp, OF g]
  note d = ko [THEN conjunct2, THEN conjunct2, THEN conjunct2, THEN conjunct2,
               THEN conjunct1, THEN mp, OF c]
  note e = ok [THEN conjunct2, THEN conjunct2, THEN conjunct2, THEN conjunct2, THEN conjunct2,
               THEN conjunct2, THEN conjunct2, THEN mp, OF q]
  have a1: "fst (BatchInsert healthy chain batch) = None"
    using a by (rule conjunct1)
  have a2: "history (snd (BatchInsert healthy chain batch)) = history chain @ batch"
    using a [THEN conjunct2, THEN conjunct1] by (simp only: insert_all_chain_batch)
  have a3: "fst (LastProcessedBlock None (snd (BatchInsert healthy chain batch))) = 4"
    using a [THEN conjunct2, THEN conjunct2, THEN conjunct2, THEN conjunct2]
    by (simp only: lpb_chain hd_batch m)
  have e1: "fst (Store_BatchInsert healthy committer_store batch) = None"
    using e [THEN conjunct1] by (simp only: fst_conv)
  have e2: "Store_history (snd (Store_BatchInsert healthy committer_store batch)) = history chain @ batch"
    using e [THEN conjunct2, THEN conjunct1]
    by (simp only: Store_history_committer insert_all_chain_batch)
  have e3: "fst (Store_LastProcessedBlock None (snd (Store_BatchInsert healthy committer_store batch))) = 4"
    using e [THEN conjunct2, THEN conjunct2, THEN conjunct2, THEN conjunct2]
    by (simp only: Store_lpb_committer hd_batch m)
  from p a1 a2 a3 f b committer_store_supported e1 e2 e3 c d show ?thesis
    by (intro conjI) (simp_all only: simp_thms)
qed

text \<open>
  C10. A successful \<open>BatchInsert\<close> of a non-empty batch leaves \<open>LastProcessedBlock\<close> at the
  maximum of its old value and the block number of the first record; the other records of
  the batch play no part in it.
\<close>

theorem BatchInsert_progress_from_first_record:
  "(no_fault env (length (w # ws)) \<longrightarrow>
      fst (LastProcessedBlock None (snd (BatchInsert env s (w # ws)))) =
        max (fst (LastProcessedBlock None s)) (WriteRecord.BlockNum w)) \<and>
   (no_fault env (length (w # ws)) \<and> supported (Backend sp) \<longrightarrow>
      fst (Store_LastProcessedBlock None (snd (Store_BatchInsert env sp (w # ws)))) =
        max (fst (Store_LastProcessedBlock None sp)) (WriteRecord.BlockNum w))"
proof (intro conjI impI)
  assume "no_fault env (length (w # ws))"
  then show "fst (LastProcessedBlock None (snd (BatchInsert env s (w # ws)))) =
        max (fst (LastProcessedBlock None s)) (WriteRecord.BlockNum w)"
    by (simp add: BatchInsert_ok lpb_committed)
next
  assume a: "no_fault env (length (w # ws)) \<and> supported (Backend sp)"
  then have b: "BatchInsert env (as_VersionedDB sp) (w # ws) = (None, committed (as_VersionedDB sp) (w # ws))"
    by (simp add: BatchInsert_ok)
  have "as_VersionedDB (sp\<lparr>DB := backend (committed (as_VersionedDB sp) (w # ws))\<rparr>)
          = committed (as_VersionedDB sp) (w # ws)"
    by (simp add: as_VersionedDB_DB committed_def)
  with a b show "fst (Store_LastProcessedBlock None (snd (Store_BatchInsert env sp (w # ws)))) =
        max (fst (Store_LastProcessedBlock None sp)) (WriteRecord.BlockNum w)"
    by (simp add: Store_BatchInsert_supported Store_lpb lpb_committed)
qed

theorem BatchInsert_progress_from_first_record_witness:
  "no_fault healthy (length (wr ''k'' 4 0 bytes_v1 False # [wr ''j'' 9 0 bytes_v2 False])) \<and>
   fst (LastProcessedBlock None chain) = 3 \<and>
   fst (LastProcessedBlock None
         (snd (BatchInsert healthy chain (wr ''k'' 4 0 bytes_v1 False # [wr ''j'' 9 0 bytes_v2 False])))) = 4 \<and>
   WriteRecord.BlockNum (wr ''j'' 9 0 bytes_v2 False) = 9"
proof -
  have m: "max (3::64 word) 4 = 4" by simp
  have b: "WriteRecord.BlockNum (wr ''k'' 4 0 bytes_v1 False) = 4"
    and c: "WriteRecord.BlockNum (wr ''j'' 9 0 bytes_v2 False) = 9"
    by (simp_all add: wr_def)
  show ?thesis
    using BatchInsert_progress_from_first_record
            [of healthy "wr ''k'' 4 0 bytes_v1 False" "[wr ''j'' 9 0 bytes_v2 False]" chain]
          no_fault_healthy [of "length (wr ''k'' 4 0 bytes_v1 False # [wr ''j'' 9 0 bytes_v2 False])"]
    by (simp add: lpb_chain b c m)
qed

lemma BatchInsert_twice:
  assumes "fst (BatchInsert env s ws) = None"
  shows "snd (BatchInsert env' (snd (BatchInsert env s ws)) ws) = snd (BatchInsert env s ws)"
proof (cases "ws = []")
  case True
  then show ?thesis by (simp add: BatchInsert_Nil)
next
  case False
  have nf: "no_fault env (length ws)"
  proof (rule ccontr)
    assume "\<not> no_fault env (length ws)"
    from BatchInsert_fault_hd [OF False this, of s] assms show False by auto
  qed
  have b: "BatchInsert env s ws = (None, committed s ws)"
    using False nf by (rule BatchInsert_ok_hd)
  from BatchInsert_state [of env' "committed s ws" ws]
  show ?thesis
    by (elim disjE conjE) (simp_all add: b committed_idem)
qed

lemma InsertWrite_duplicate:
  "list_ex (\<lambda>r. primary_key r = primary_key w) (history s) \<Longrightarrow> InsertWrite None s w = (None, s)"
  by (simp add: InsertWrite_def history_def insert_ignore_def)

lemma as_VersionedDB_backend:
  "(as_VersionedDB sp)\<lparr>backend := backend (snd (BatchInsert env (as_VersionedDB sp) ws))\<rparr>
     = snd (BatchInsert env (as_VersionedDB sp) ws)"
  using BatchInsert_state [of env "as_VersionedDB sp" ws]
  by (elim disjE conjE) (simp_all add: committed_def)

lemma Store_BatchInsert_twice:
  assumes "fst (Store_BatchInsert env sp ws) = None"
  shows "snd (Store_BatchInsert env' (snd (Store_BatchInsert env sp ws)) ws) = snd (Store_BatchInsert env sp ws)"
proof (cases "supported (Backend sp)")
  case False
  with assms have "ws = []" using Store_BatchInsert_unsupported [of sp env ws] by auto
  then show ?thesis by (simp add: Store_BatchInsert_Nil)
next
  case True
  let ?s1 = "snd (BatchInsert env (as_VersionedDB sp) ws)"
  let ?sp1 = "sp\<lparr>DB := backend ?s1\<rparr>"
  from assms True have f: "fst (BatchInsert env (as_VersionedDB sp) ws) = None"
    by (simp add: Store_BatchInsert_supported)
  have sp1: "snd (Store_BatchInsert env sp ws) = ?sp1"
    using True by (simp add: Store_BatchInsert_supported)
  have a: "as_VersionedDB ?sp1 = ?s1"
    by (simp add: as_VersionedDB_DB as_VersionedDB_backend)
  have s: "supported (Backend ?sp1)" using True by simp
  have "snd (Store_BatchInsert env' ?sp1 ws) = ?sp1\<lparr>DB := backend (snd (BatchInsert env' ?s1 ws))\<rparr>"
    using s by (simp add: Store_BatchInsert_supported a)
  also have "\<dots> = ?sp1" by (simp add: BatchInsert_twice [OF f])
  finally show ?thesis by (simp add: sp1)
qed

text \<open>
  C5. After a successful \<open>BatchInsert\<close>, a second call with the same records leaves the
  store (history and progress) exactly as the first call left it, and succeeds when none of
  its steps fails. A record whose primary key is already stored is ignored without error.
\<close>

theorem BatchInsert_idempotent:
  "(fst (BatchInsert env s ws) = None \<longrightarrow>
      snd (BatchInsert env' (snd (BatchInsert env s ws)) ws) = snd (BatchInsert env s ws) \<and>
      (no_fault env' (length ws) \<longrightarrow> fst (BatchInsert env' (snd (BatchInsert env s ws)) ws) = None)) \<and>
   (list_ex (\<lambda>r. primary_key r = primary_key w) (history s) \<longrightarrow>
      insert_ignore w (history s) = history s \<and> InsertWrite None s w = (None, s)) \<and>
   (fst (Store_BatchInsert env sp ws) = None \<longrightarrow>
      snd (Store_BatchInsert env' (snd (Store_BatchInsert env sp ws)) ws) = snd (Store_BatchInsert env sp ws))"
proof (intro conjI impI)
  assume "fst (BatchInsert env s ws) = None"
  then show "snd (BatchInsert env' (snd (BatchInsert env s ws)) ws) = snd (BatchInsert env s ws)"
    by (rule BatchInsert_twice)
next
  assume "no_fault env' (length ws)"
  then show "fst (BatchInsert env' (snd (BatchInsert env s ws)) ws) = None"
    by (cases "ws = []") (simp_all add: BatchInsert_Nil BatchInsert_ok_hd)
next
  assume "list_ex (\<lambda>r. primary_key r = primary_key w) (history s)"
  then show "insert_ignore w (history s) = history s" "InsertWrite None s w = (None, s)"
    by (simp_all add: insert_ignore_present InsertWrite_duplicate)
next
  assume "fst (Store_BatchInsert env sp ws) = None"
  then show "snd (Store_BatchInsert env' (snd (Store_BatchInsert env sp ws)) ws) = snd (Store_BatchInsert env sp ws)"
    by (rule Store_BatchInsert_twice)
qed

theorem BatchInsert_idempotent_witness:
  "fst (BatchInsert healthy chain batch) = None \<and>
   no_fault healthy (length batch) \<and>
   BatchInsert healthy (snd (BatchInsert healthy chain batch)) batch
     = (None, snd (BatchInsert healthy chain batch)) \<and>
   history (snd (BatchInsert healthy (snd (BatchInsert healthy chain batch)) batch)) = history chain @ batch \<and>
   list_ex (\<lambda>r. primary_key r = primary_key (wr ''k'' 3 0 None True)) (history chain) \<and>
   InsertWrite None chain (wr ''k'' 3 0 None True) = (None, chain)"
proof -
  have f: "fst (BatchInsert healthy chain batch) = None"
    by (simp add: BatchInsert_ok_hd batch_nonempty no_fault_healthy)
  have h: "history (snd (BatchInsert healthy chain batch)) = history chain @ batch"
    by (simp add: BatchInsert_ok_hd batch_nonempty no_fault_healthy history_committed insert_all_chain_batch)
  have d: "list_ex (\<lambda>r. primary_key r = primary_key (wr ''k'' 3 0 None True)) (history chain)"
    by (simp add: history_chain primary_key_def wr_def)
  show ?thesis
    using BatchInsert_idempotent [of healthy chain batch healthy "wr ''k'' 3 0 None True"]
          f h d no_fault_healthy [of "length batch"]
    by (simp add: prod_eq_iff)
qed

lemma run_calls_append_mono:
  "fst (LastProcessedBlock None (foldl run_call s cs)) \<le>
   fst (LastProcessedBlock None (foldl run_call s (cs @ cs')))"
  by (simp add: run_calls_mono)

lemma Store_run_calls_append_mono:
  "fst (Store_LastProcessedBlock None (foldl Store_run_call sp cs)) \<le>
   fst (Store_LastProcessedBlock None (foldl Store_run_call sp (cs @ cs')))"
  by (simp add: Store_run_calls_mono)

lemma MarkProcessed_noop:
  "progress s = Some old \<Longrightarrow> \<not> old < b \<Longrightarrow> MarkProcessed None s None b = (None, s, None)"
  by (simp add: MarkProcessed_def progress_def upsert_progress_def)

lemma MarkProcessed_advances:
  "progress s = Some old \<Longrightarrow> old < b \<Longrightarrow> progress (fst (snd (MarkProcessed None s None b))) = Some b"
  by (simp add: MarkProcessed_def progress_def upsert_progress_def)

text \<open>
  C4. Along any sequence of \<open>MarkProcessed\<close> and \<open>BatchInsert\<close> calls, failing ones
  included, the value of \<open>LastProcessedBlock\<close> never decreases. \<open>MarkProcessed(b)\<close> sets it
  to \<open>b\<close> when \<open>b\<close> is strictly greater and leaves the store untouched when a stored value
  is not smaller than \<open>b\<close>.
\<close>

theorem LastProcessedBlock_never_decreases:
  "fst (LastProcessedBlock None (foldl run_call s cs)) \<le>
     fst (LastProcessedBlock None (foldl run_call s (cs @ cs'))) \<and>
   fst (Store_LastProcessedBlock None (foldl Store_run_call sp cs)) \<le>
     fst (Store_LastProcessedBlock None (foldl Store_run_call sp (cs @ cs'))) \<and>
   fst (LastProcessedBlock None (run_call s (CallMarkProcessed None b))) =
     (if fst (LastProcessedBlock None s) < b then b else fst (LastProcessedBlock None s)) \<and>
   (progress s = Some old \<and> \<not> old < b \<longrightarrow> MarkProcessed None s None b = (None, s, None)) \<and>
   (progress s = Some old \<and> old < b \<longrightarrow>
      progress (fst (snd (MarkProcessed None s None b))) = Some b)"
proof (intro conjI impI)
  show "fst (LastProcessedBlock None (foldl run_call s cs)) \<le>
     fst (LastProcessedBlock None (foldl run_call s (cs @ cs')))"
    by (rule run_calls_append_mono)
  show "fst (Store_LastProcessedBlock None (foldl Store_run_call sp cs)) \<le>
     fst (Store_LastProcessedBlock None (foldl Store_run_call sp (cs @ cs')))"
    by (rule Store_run_calls_append_mono)
  show "fst (LastProcessedBlock None (run_call s (CallMarkProcessed None b))) =
     (if fst (LastProcessedBlock None s) < b then b else fst (LastProcessedBlock None s))"
    by (simp add: lpb_mark if_less_max)
  show "MarkProcessed None s None b = (None, s, None)" if "progress s = Some old \<and> \<not> old < b"
    using that by (simp add: MarkProcessed_noop)
  show "progress (fst (snd (MarkProcessed None s None b))) = Some b" if "progress s = Some old \<and> old < b"
    using that by (simp add: MarkProcessed_advances)
qed

lemma progress_fresh_5:
  "progress (run_call fresh (CallMarkProcessed None 5)) = Some 5"
  by (simp add: MarkProcessed_def progress_def upsert_progress_def fresh_def New_def)

theorem LastProcessedBlock_never_decreases_witness:
  "fst (LastProcessedBlock None (foldl run_call fresh [CallMarkProcessed None 5])) = 5 \<and>
   fst (LastProcessedBlock None (foldl run_call fresh ([CallMarkProcessed None 5] @ [CallMarkProcessed None 3]))) = 5 \<and>
   progress (run_call fresh (CallMarkProcessed None 5)) = Some 5 \<and> \<not> (5::64 word) < 3 \<and>
   MarkProcessed None (run_call fresh (CallMarkProcessed None 5)) None 3
     = (None, run_call fresh (CallMarkProcessed None 5), None) \<and>
   progress chain = Some 3 \<and> (3::64 word) < 7 \<and>
   progress (fst (snd (MarkProcessed None chain None 7))) = Some 7"
proof -
  have a: "fst (LastProcessedBlock None (foldl run_call fresh [CallMarkProcessed None 5])) = 5"
    by (simp add: lpb_eq progress_fresh_5 del: run_call.simps)
  have c: "progress chain = Some 3"
    by (simp add: progress_def chain_def New_def)
  have n: "\<not> (5::64 word) < 3" and l: "(3::64 word) < 7" by simp_all
  have m: "MarkProcessed None (run_call fresh (CallMarkProcessed None 5)) None 3
     = (None, run_call fresh (CallMarkProcessed None 5), None)"
    using LastProcessedBlock_never_decreases
            [where s = "run_call fresh (CallMarkProcessed None 5)" and b = 3 and old = 5]
          progress_fresh_5 n
    by blast
  have b: "fst (LastProcessedBlock None
             (foldl run_call fresh ([CallMarkProcessed None 5] @ [CallMarkProcessed None 3]))) = 5"
    using a m by simp
  have d: "progress (fst (snd (MarkProcessed None chain None 7))) = Some 7"
    using LastProcessedBlock_never_decreases [where s = chain and b = 7 and old = 3] c l
    by blast
  from a b progress_fresh_5 n m c l d show ?thesis by blast
qed

section \<open>Properties of WaitUntilSynced\<close>

lemma backoffs_0 [simp]: "backoffs b 0 = []"
  by (simp add: backoffs_def)











end
